theory Spec2Isabelle
  imports Main "HOL-Library.AList"
begin

section \<open>The event bus of just\_agents (core/just\_agents/just\_bus.py)\<close>

text \<open>
  The bus is a Python object with a dictionary \<open>_subscribers\<close> from patterns to lists of
  callbacks and, in the buffered subclass, a bounded deque \<open>_buffer\<close> of undelivered
  events. The model passes the object around as a record. A Python dictionary iterates in
  the insertion order of its keys, which the dispatch depends on, so the registry is an
  association list with one entry per key. The field \<open>calls\<close> is not in the source: it is
  the trace of the callback invocations made so far, in order, so that theorems can say
  who was invoked with what.

  Callbacks are opaque values of a type \<open>'cb\<close>; equality on \<open>'cb\<close> stands for the
  comparison that Python's \<open>cb not in seen\<close> and \<open>list.remove\<close> make, which is \<open>==\<close> and
  not object identity (see the callback objects below). What a callback does when it is called is a parameter
  \<open>call\<close> of every operation that invokes callbacks: it gets the callback, the event and
  the bus, and it returns the bus as the callback left it together with either an
  exception or a normal return (a callback's return value is ignored by the source).
\<close>

datatype exn = CallbackError string | RecursionError

record ('cb, 'a, 'k) bus =
  subscribers :: "(string \<times> 'cb list) list"
  buffer :: "(string \<times> 'a \<times> 'k) list"
  buffer_max_size :: nat
  calls :: "('cb \<times> string \<times> 'a \<times> 'k) list"

type_synonym ('cb, 'a, 'k) call =
  "'cb \<Rightarrow> string \<Rightarrow> 'a \<Rightarrow> 'k \<Rightarrow> ('cb, 'a, 'k) bus \<Rightarrow> (exn + unit) \<times> ('cb, 'a, 'k) bus"

subsection \<open>Strings, dictionaries, lists and deques of Python\<close>

definition startswith :: "string \<Rightarrow> string \<Rightarrow> bool" where
  "startswith s p = (take (length p) s = p)"

definition endswith :: "string \<Rightarrow> string \<Rightarrow> bool" where
  "endswith s suffix = (length suffix \<le> length s \<and> drop (length s - length suffix) s = suffix)"

text \<open>\<open>d.get(k, default)\<close>.\<close>

definition dict_get :: "('key \<times> 'v) list \<Rightarrow> 'key \<Rightarrow> 'v \<Rightarrow> 'v" where
  "dict_get d k dflt = (case map_of d k of None \<Rightarrow> dflt | Some v \<Rightarrow> v)"

text \<open>\<open>xs.remove(x)\<close>: the first element equal to \<open>x\<close> goes; \<open>None\<close> is the ValueError.\<close>

fun list_remove :: "'x list \<Rightarrow> 'x \<Rightarrow> 'x list option" where
  "list_remove [] x = None"
| "list_remove (y # ys) x =
     (if y = x then Some ys
      else (case list_remove ys x of None \<Rightarrow> None | Some ys' \<Rightarrow> Some (y # ys')))"

text \<open>
  \<open>deque(maxlen=n).append(x)\<close>: the item is added on the right and, when the deque is
  then longer than \<open>maxlen\<close>, one item is dropped on the left.
\<close>

definition deque_append :: "nat \<Rightarrow> 'x list \<Rightarrow> 'x \<Rightarrow> 'x list" where
  "deque_append maxlen q x = (let q' = q @ [x] in if maxlen < length q' then tl q' else q')"

subsection \<open>JustEventBus\<close>

definition init_bus :: "nat \<Rightarrow> ('cb, 'a, 'k) bus" where
  "init_bus buffer_size =
     \<lparr>subscribers = [], buffer = [], buffer_max_size = buffer_size, calls = []\<rparr>"

definition subscribe ::
  "string \<Rightarrow> 'cb \<Rightarrow> ('cb, 'a, 'k) bus \<Rightarrow> bool \<times> ('cb, 'a, 'k) bus" where
  "subscribe event_prefix callback s =
     (let subs = (if map_of (subscribers s) event_prefix = None
                  then AList.update event_prefix [] (subscribers s)
                  else subscribers s)
      in (True, s\<lparr>subscribers :=
                    AList.update event_prefix (dict_get subs event_prefix [] @ [callback]) subs\<rparr>))"

definition unsubscribe ::
  "string \<Rightarrow> 'cb \<Rightarrow> ('cb, 'a, 'k) bus \<Rightarrow> bool \<times> ('cb, 'a, 'k) bus" where
  "unsubscribe event_prefix callback s =
     (case map_of (subscribers s) event_prefix of
        Some cbs \<Rightarrow>
          (case list_remove cbs callback of
             Some cbs' \<Rightarrow> (True, s\<lparr>subscribers := AList.update event_prefix cbs' (subscribers s)\<rparr>)
           | None \<Rightarrow> (False, s))
      | None \<Rightarrow> (False, s))"

text \<open>
  The loop over \<open>self._subscribers.items()\<close> that collects the callbacks of every pattern
  ending in \<open>.*\<close> whose prefix (the pattern without its last two characters) starts the
  event name.
\<close>

fun prefix_matching :: "string \<Rightarrow> (string \<times> 'cb list) list \<Rightarrow> 'cb list" where
  "prefix_matching event_name [] = []"
| "prefix_matching event_name ((pattern, callbacks) # items) =
     (if endswith pattern ''.*'' \<and> startswith event_name (take (length pattern - 2) pattern)
      then callbacks @ prefix_matching event_name items
      else prefix_matching event_name items)"

text \<open>
  The loop \<open>for cb in exact_callbacks + prefix_callbacks\<close>. A callback not yet in \<open>seen\<close>
  is called and then added to \<open>seen\<close>; an exception it raises ends the loop at once.
\<close>

fun invoke_callbacks ::
  "('cb, 'a, 'k) call \<Rightarrow> string \<Rightarrow> 'a \<Rightarrow> 'k \<Rightarrow> 'cb list \<Rightarrow> 'cb set \<Rightarrow> ('cb, 'a, 'k) bus
     \<Rightarrow> (exn + 'cb set) \<times> ('cb, 'a, 'k) bus" where
  "invoke_callbacks call event_name args kwargs [] seen s = (Inr seen, s)"
| "invoke_callbacks call event_name args kwargs (cb # cbs) seen s =
     (if cb \<notin> seen then
        (case call cb event_name args kwargs
                (s\<lparr>calls := calls s @ [(cb, event_name, args, kwargs)]\<rparr>) of
           (Inl e, s') \<Rightarrow> (Inl e, s')
         | (Inr u, s') \<Rightarrow> invoke_callbacks call event_name args kwargs cbs (insert cb seen) s')
      else invoke_callbacks call event_name args kwargs cbs seen s)"

definition dispatch_event ::
  "('cb, 'a, 'k) call \<Rightarrow> string \<Rightarrow> 'a \<Rightarrow> 'k \<Rightarrow> ('cb, 'a, 'k) bus
     \<Rightarrow> (exn + bool) \<times> ('cb, 'a, 'k) bus" where
  "dispatch_event call event_name args kwargs s =
     (let exact_callbacks = dict_get (subscribers s) event_name [];
          prefix_callbacks = prefix_matching event_name (subscribers s)
      in case invoke_callbacks call event_name args kwargs
                (exact_callbacks @ prefix_callbacks) {} s of
           (Inl e, s') \<Rightarrow> (Inl e, s')
         | (Inr seen, s') \<Rightarrow> (Inr (0 < card seen), s'))"

definition publish ::
  "('cb, 'a, 'k) call \<Rightarrow> string \<Rightarrow> 'a \<Rightarrow> 'k \<Rightarrow> ('cb, 'a, 'k) bus
     \<Rightarrow> (exn + bool) \<times> ('cb, 'a, 'k) bus" where
  "publish call event_name args kwargs s = dispatch_event call event_name args kwargs s"

subsection \<open>BufferedEventBus\<close>

text \<open>
  The loop of \<open>_flush_buffer\<close>: the first argument after \<open>trim_prefix\<close> is what is left of
  \<open>range(buffer_size)\<close>, the second is \<open>removed_count\<close>. Python's \<open>if trim_prefix and ...\<close>
  is false for \<open>None\<close> and for the empty string. An exception of a callback leaves the loop
  with the entry already taken out of the buffer.
\<close>

fun flush_loop ::
  "('cb, 'a, 'k) call \<Rightarrow> string option \<Rightarrow> nat \<Rightarrow> nat \<Rightarrow> ('cb, 'a, 'k) bus
     \<Rightarrow> (exn + nat) \<times> ('cb, 'a, 'k) bus" where
  "flush_loop call trim_prefix 0 removed_count s = (Inr removed_count, s)"
| "flush_loop call trim_prefix (Suc n) removed_count s =
     (case buffer s of
        [] \<Rightarrow> (Inr removed_count, s)
      | (event_name, args, kwargs) # rest \<Rightarrow>
          (let s1 = s\<lparr>buffer := rest\<rparr> in
           if (case trim_prefix of None \<Rightarrow> False
               | Some p \<Rightarrow> p \<noteq> [] \<and> startswith event_name p)
           then flush_loop call trim_prefix n (removed_count + 1) s1
           else (case dispatch_event call event_name args kwargs s1 of
                   (Inl e, s2) \<Rightarrow> (Inl e, s2)
                 | (Inr delivered, s2) \<Rightarrow>
                     if \<not> delivered
                     then flush_loop call trim_prefix n removed_count
                            (s2\<lparr>buffer := deque_append (buffer_max_size s2) (buffer s2)
                                             (event_name, args, kwargs)\<rparr>)
                     else flush_loop call trim_prefix n (removed_count + 1) s2)))"

definition flush_buffer ::
  "('cb, 'a, 'k) call \<Rightarrow> string option \<Rightarrow> ('cb, 'a, 'k) bus
     \<Rightarrow> (exn + nat) \<times> ('cb, 'a, 'k) bus" where
  "flush_buffer call trim_prefix s = flush_loop call trim_prefix (length (buffer s)) 0 s"

definition buffered_subscribe ::
  "('cb, 'a, 'k) call \<Rightarrow> string \<Rightarrow> 'cb \<Rightarrow> ('cb, 'a, 'k) bus
     \<Rightarrow> (exn + bool) \<times> ('cb, 'a, 'k) bus" where
  "buffered_subscribe call event_prefix callback s =
     (case subscribe event_prefix callback s of
        (result, s1) \<Rightarrow>
          (case flush_buffer call None s1 of
             (Inl e, s2) \<Rightarrow> (Inl e, s2)
           | (Inr n, s2) \<Rightarrow> (Inr result, s2)))"

definition buffered_publish ::
  "('cb, 'a, 'k) call \<Rightarrow> string \<Rightarrow> 'a \<Rightarrow> 'k \<Rightarrow> ('cb, 'a, 'k) bus
     \<Rightarrow> (exn + bool) \<times> ('cb, 'a, 'k) bus" where
  "buffered_publish call event_name args kwargs s =
     (case publish call event_name args kwargs s of
        (Inl e, s1) \<Rightarrow> (Inl e, s1)
      | (Inr delivered, s1) \<Rightarrow>
          (let s2 = (if \<not> delivered
                     then s1\<lparr>buffer := deque_append (buffer_max_size s1) (buffer s1)
                                          (event_name, args, kwargs)\<rparr>
                     else s1)
           in case flush_buffer call None s2 of
                (Inl e, s3) \<Rightarrow> (Inl e, s3)
              | (Inr n, s3) \<Rightarrow> (Inr delivered, s3)))"

definition trim_by_prefix ::
  "('cb, 'a, 'k) call \<Rightarrow> string \<Rightarrow> ('cb, 'a, 'k) bus \<Rightarrow> (exn + nat) \<times> ('cb, 'a, 'k) bus" where
  "trim_by_prefix call prefix s = flush_buffer call (Some prefix) s"

subsection \<open>Callbacks that use the bus\<close>

text \<open>
  A callback may itself call the buffered bus while it runs. Such callbacks are modelled
  by what they do: a list of calls on the bus, performed in order, where an exception of
  one of them (or a \<open>Raise\<close>) leaves the callback at once. \<open>invoke limit behaviour\<close> is
  the \<open>call\<close> parameter for callbacks with these behaviours; \<open>limit\<close> bounds how deep
  callbacks may be nested inside callbacks, as the interpreter's recursion limit does,
  and a callback that would go deeper raises RecursionError.
\<close>

datatype ('cb, 'a, 'k) action =
    Publish string 'a 'k
  | Subscribe string 'cb
  | Unsubscribe string 'cb
  | TrimByPrefix string
  | Raise string

fun run_action ::
  "('cb, 'a, 'k) call \<Rightarrow> ('cb, 'a, 'k) action \<Rightarrow> ('cb, 'a, 'k) bus
     \<Rightarrow> (exn + unit) \<times> ('cb, 'a, 'k) bus" where
  "run_action call (Publish event_name args kwargs) s =
     (case buffered_publish call event_name args kwargs s of
        (Inl e, s') \<Rightarrow> (Inl e, s') | (Inr b, s') \<Rightarrow> (Inr (), s'))"
| "run_action call (Subscribe event_prefix callback) s =
     (case buffered_subscribe call event_prefix callback s of
        (Inl e, s') \<Rightarrow> (Inl e, s') | (Inr b, s') \<Rightarrow> (Inr (), s'))"
| "run_action call (Unsubscribe event_prefix callback) s =
     (Inr (), snd (unsubscribe event_prefix callback s))"
| "run_action call (TrimByPrefix prefix) s =
     (case trim_by_prefix call prefix s of
        (Inl e, s') \<Rightarrow> (Inl e, s') | (Inr n, s') \<Rightarrow> (Inr (), s'))"
| "run_action call (Raise msg) s = (Inl (CallbackError msg), s)"

fun run_actions ::
  "('cb, 'a, 'k) call \<Rightarrow> ('cb, 'a, 'k) action list \<Rightarrow> ('cb, 'a, 'k) bus
     \<Rightarrow> (exn + unit) \<times> ('cb, 'a, 'k) bus" where
  "run_actions call [] s = (Inr (), s)"
| "run_actions call (x # xs) s =
     (case run_action call x s of
        (Inl e, s') \<Rightarrow> (Inl e, s')
      | (Inr u, s') \<Rightarrow> run_actions call xs s')"

primrec invoke ::
  "nat \<Rightarrow> ('cb \<Rightarrow> string \<Rightarrow> 'a \<Rightarrow> 'k \<Rightarrow> ('cb, 'a, 'k) action list) \<Rightarrow> ('cb, 'a, 'k) call" where
  "invoke 0 behaviour = (\<lambda>cb event_name args kwargs s. (Inl RecursionError, s))"
| "invoke (Suc limit) behaviour =
     (\<lambda>cb event_name args kwargs s.
        run_actions (invoke limit behaviour) (behaviour cb event_name args kwargs) s)"

text \<open>
  A program that uses the bus: a sequence of calls from outside any callback. The caller
  may catch an exception and go on, so the state is threaded through whatever each call
  returns.
\<close>

definition run_program ::
  "('cb, 'a, 'k) call \<Rightarrow> ('cb, 'a, 'k) action list \<Rightarrow> ('cb, 'a, 'k) bus \<Rightarrow> ('cb, 'a, 'k) bus" where
  "run_program call prog s = foldl (\<lambda>s x. snd (run_action call x s)) s prog"

text \<open>A sequence of \<open>subscribe\<close> calls on the core bus, given as (pattern, callback) pairs.\<close>

definition subscribe_all ::
  "(string \<times> 'cb) list \<Rightarrow> ('cb, 'a, 'k) bus \<Rightarrow> ('cb, 'a, 'k) bus" where
  "subscribe_all regs s = foldl (\<lambda>s (p, c). snd (subscribe p c s)) s regs"

text \<open>The callbacks that return normally and do not touch the bus.\<close>

definition quiet :: "('cb, 'a, 'k) call" where
  "quiet = (\<lambda>cb event_name args kwargs s. (Inr (), s))"

text \<open>
  Callbacks that do not use the bus: each returns normally or raises, as \<open>outcome\<close> says,
  and leaves the bus as it is.
\<close>

definition plain :: "('cb \<Rightarrow> string \<Rightarrow> 'a \<Rightarrow> 'k \<Rightarrow> exn + unit) \<Rightarrow> ('cb, 'a, 'k) call" where
  "plain outcome = (\<lambda>cb event_name args kwargs s. (outcome cb event_name args kwargs, s))"

subsection \<open>Callback objects of Python\<close>

text \<open>
  The source compares callbacks with \<open>cb not in seen\<close> (a set: hash, then \<open>==\<close>) and with
  \<open>list.remove\<close> (\<open>==\<close>), never with \<open>is\<close>. For a function object \<open>==\<close> is object identity.
  For a bound method it is not: every evaluation of \<open>h.m\<close> creates a new method object,
  and two method objects are equal when they have the same \<open>__self__\<close> and the same
  \<open>__func__\<close>. A callback object is a function with its object id, or a bound method with
  its own object id and the ids of its \<open>__self__\<close> and \<open>__func__\<close>. \<open>same_object\<close> is
  Python's \<open>is\<close>, \<open>py_eq\<close> is Python's \<open>==\<close>, and \<open>py_key\<close> maps an object to what \<open>==\<close>
  and the hash see of it, so that two objects are equal exactly when their keys are. The
  bus handles a callback object only through \<open>==\<close>, the hash and the call, so on callback
  objects it is the model above at the type of keys.
\<close>

datatype py_callback = PyFunction nat | PyBoundMethod nat nat nat

fun same_object :: "py_callback \<Rightarrow> py_callback \<Rightarrow> bool" where
  "same_object (PyFunction i) (PyFunction j) = (i = j)"
| "same_object (PyBoundMethod i self func) (PyBoundMethod j self' func') = (i = j)"
| "same_object a b = False"

fun py_eq :: "py_callback \<Rightarrow> py_callback \<Rightarrow> bool" where
  "py_eq (PyFunction i) (PyFunction j) = (i = j)"
| "py_eq (PyBoundMethod i self func) (PyBoundMethod j self' func') = (self = self' \<and> func = func')"
| "py_eq a b = False"

datatype cb_key = FunctionKey nat | MethodKey nat nat

fun py_key :: "py_callback \<Rightarrow> cb_key" where
  "py_key (PyFunction i) = FunctionKey i"
| "py_key (PyBoundMethod i self func) = MethodKey self func"

subsection \<open>Notions of the specification\<close>

text \<open>
  A pattern matches an event name when it equals the name, or when it ends in \<open>.*\<close> and
  the name starts with what stands before the \<open>.*\<close>.
\<close>

definition pattern_matches :: "string \<Rightarrow> string \<Rightarrow> bool" where
  "pattern_matches pattern event_name =
     (pattern = event_name
      \<or> endswith pattern ''.*'' \<and> startswith event_name (take (length pattern - 2) pattern))"

text \<open>The callbacks a sequence of registrations puts under a pattern, in registration order.\<close>

definition registered :: "(string \<times> 'cb) list \<Rightarrow> string \<Rightarrow> 'cb list" where
  "registered regs q = [c. (p, c) \<leftarrow> regs, p = q]"

text \<open>
  Each element once, at the place of its first occurrence: the order in which a walk
  that skips what it has already seen meets the elements.
\<close>

primrec first_occurrences :: "'x list \<Rightarrow> 'x list" where
  "first_occurrences [] = []"
| "first_occurrences (x # xs) = x # removeAll x (first_occurrences xs)"

text \<open>
  The callbacks a dispatch of \<open>event_name\<close> is to invoke, in order: the exact list, then
  the prefix lists, each callback at its first occurrence.
\<close>

definition delivery_order :: "(string \<times> 'cb list) list \<Rightarrow> string \<Rightarrow> 'cb list" where
  "delivery_order subs event_name =
     first_occurrences (dict_get subs event_name [] @ prefix_matching event_name subs)"

text \<open>The test of the flush loop that decides whether an entry is trimmed.\<close>

definition trims :: "string option \<Rightarrow> string \<Rightarrow> bool" where
  "trims trim_prefix event_name =
     (case trim_prefix of None \<Rightarrow> False | Some p \<Rightarrow> p \<noteq> [] \<and> startswith event_name p)"

text \<open>The buffer holds at most \<open>C\<close> entries and \<open>C\<close> is the capacity the bus was built with.\<close>

definition within_capacity :: "nat \<Rightarrow> ('cb, 'a, 'k) bus \<Rightarrow> bool" where
  "within_capacity C s = (buffer_max_size s = C \<and> length (buffer s) \<le> C)"

subsection \<open>Example states\<close>

definition example_registry :: "(nat, unit, unit) bus" where
  "example_registry =
     \<lparr>subscribers = [(''tool.*'', [1, 2, 1]), (''tool.execute'', [1])],
      buffer = [], buffer_max_size = 2, calls = []\<rparr>"

datatype example_cb = Logger | Failing | Audit | Metrics

definition example_bus :: "(example_cb, unit, unit) bus" where
  "example_bus =
     \<lparr>subscribers = [(''tool.execute'', [Logger, Failing]), (''tool.*'', [Audit, Logger])],
      buffer = [(''tool.result'', (), ())], buffer_max_size = 2, calls = []\<rparr>"

definition example_outcome :: "example_cb \<Rightarrow> string \<Rightarrow> unit \<Rightarrow> unit \<Rightarrow> exn + unit" where
  "example_outcome cb event_name args kwargs =
     (if cb = Failing then Inl (CallbackError ''boom'') else Inr ())"

definition example_regs :: "(string \<times> example_cb) list" where
  "example_regs =
     [(''tool.*'', Audit), (''tool.execute'', Logger), (''tool.execute'', Audit),
      (''.*'', Metrics), (''tool.result'', Failing)]"

definition example_pending :: "(example_cb, unit, unit) bus" where
  "example_pending =
     \<lparr>subscribers = [], buffer = [(''tool.execute'', (), ())], buffer_max_size = 2, calls = []\<rparr>"

text \<open>
  A callback that publishes two events when it is called, and a bus whose buffer is full
  when that callback is subscribed.
\<close>

definition republishing :: "example_cb \<Rightarrow> string \<Rightarrow> unit \<Rightarrow> unit \<Rightarrow> (example_cb, unit, unit) action list" where
  "republishing cb event_name args kwargs =
     (if cb = Logger then [Publish ''x1'' () (), Publish ''x2'' () ()] else [])"

definition example_full :: "(example_cb, unit, unit) bus" where
  "example_full =
     \<lparr>subscribers = [(''e1'', [Logger])], buffer = [(''e1'', (), ()), (''e2'', (), ())],
      buffer_max_size = 2, calls = []\<rparr>"

text \<open>
  Two functions and two method objects of one method of one instance, registered under
  two patterns.
\<close>

definition example_methods :: "(cb_key, unit, unit) bus" where
  "example_methods =
     \<lparr>subscribers = [(''tool.execute'', [py_key (PyBoundMethod 101 7 3), py_key (PyFunction 11)]),
                    (''tool.*'', [py_key (PyBoundMethod 102 7 3), py_key (PyFunction 12)])],
      buffer = [], buffer_max_size = 2, calls = []\<rparr>"

text \<open>
  Callbacks that use the bus: \<open>Failing\<close> raises, \<open>Logger\<close> subscribes \<open>Audit\<close> to \<open>t\<close>, and
  \<open>Audit\<close> publishes two events. \<open>example_chain\<close> is the bus after \<open>boom\<close>, \<open>boom\<close>, \<open>go\<close>,
  \<open>t\<close>, \<open>log.a\<close> were published with no subscriber and \<open>Failing\<close> was subscribed to \<open>boom\<close>
  and \<open>Logger\<close> to \<open>go\<close>: each of the two subscribe calls ended with the exception of
  \<open>Failing\<close> at a buffered \<open>boom\<close>, so \<open>go\<close> is still buffered.
\<close>

definition chain :: "example_cb \<Rightarrow> string \<Rightarrow> unit \<Rightarrow> unit \<Rightarrow> (example_cb, unit, unit) action list" where
  "chain cb event_name args kwargs =
     (if cb = Failing then [Raise ''boom'']
      else if cb = Logger then [Subscribe ''t'' Audit]
      else if cb = Audit then [Publish ''u1'' () (), Publish ''u2'' () ()]
      else [])"

definition example_chain :: "(example_cb, unit, unit) bus" where
  "example_chain =
     \<lparr>subscribers = [(''boom'', [Failing]), (''go'', [Logger])],
      buffer = [(''go'', (), ()), (''t'', (), ()), (''log.a'', (), ())],
      buffer_max_size = 10,
      calls = [(Failing, ''boom'', (), ()), (Failing, ''boom'', (), ())]\<rparr>"

subsection \<open>Helper lemmas\<close>

lemma list_remove_None: "list_remove xs x = None \<longleftrightarrow> x \<notin> set xs"
  by (induction xs) (auto split: option.splits)

lemma list_remove_Some: "list_remove xs x = Some ys \<Longrightarrow> ys = remove1 x xs \<and> x \<in> set xs"
  by (induction xs arbitrary: ys) (auto split: option.splits if_splits)

lemma map_fst_update_present:
  "map_of al k = Some v \<Longrightarrow> map fst (AList.update k v' al) = map fst al"
  by (induction al) (auto split: if_splits)

lemma list_remove_split:
  "list_remove xs x = Some zs \<Longrightarrow> \<exists>us vs. xs = us @ x # vs \<and> x \<notin> set us \<and> zs = us @ vs"
proof (induction xs arbitrary: zs)
  case Nil
  then show ?case by simp
next
  case (Cons y ys)
  show ?case
  proof (cases "y = x")
    case True
    with Cons.prems have "y # ys = [] @ x # ys \<and> x \<notin> set [] \<and> zs = [] @ ys" by simp
    then show ?thesis by blast
  next
    case False
    with Cons.prems obtain zs' where r: "list_remove ys x = Some zs'" and z: "zs = y # zs'"
      by (auto split: option.splits)
    from Cons.IH [OF r] obtain us vs where "ys = us @ x # vs" "x \<notin> set us" "zs' = us @ vs"
      by blast
    with False z have "y # ys = (y # us) @ x # vs \<and> x \<notin> set (y # us) \<and> zs = (y # us) @ vs"
      by simp
    then show ?thesis by blast
  qed
qed

lemma quiet_plain: "quiet = plain (\<lambda>cb event_name args kwargs. Inr ())"
  by (simp add: quiet_def plain_def)

lemma set_first_occurrences [simp]: "set (first_occurrences xs) = set xs"
  by (induction xs) auto

lemma distinct_first_occurrences [simp]: "distinct (first_occurrences xs)"
  by (induction xs) (auto simp: distinct_removeAll)

lemma filter_removeAll_seen:
  "x \<in> seen \<Longrightarrow> filter (\<lambda>c. c \<notin> seen) (removeAll x xs) = filter (\<lambda>c. c \<notin> seen) xs"
  by (induction xs) auto

lemma filter_removeAll_insert:
  "filter (\<lambda>c. c \<notin> seen) (removeAll x xs) = filter (\<lambda>c. c \<notin> insert x seen) xs"
  by (induction xs) auto

lemma invoke_callbacks_plain_returns:
  "\<forall>c \<in> set cbs - seen. outcome c n a k = Inr () \<Longrightarrow>
   invoke_callbacks (plain outcome) n a k cbs seen s =
     (Inr (seen \<union> set cbs),
      s\<lparr>calls := calls s @ map (\<lambda>c. (c, n, a, k))
                            (filter (\<lambda>c. c \<notin> seen) (first_occurrences cbs))\<rparr>)"
proof (induction cbs arbitrary: seen s)
  case Nil
  then show ?case by simp
next
  case (Cons cb cbs)
  show ?case
  proof (cases "cb \<in> seen")
    case True
    from Cons.prems True have "\<forall>c \<in> set cbs - seen. outcome c n a k = Inr ()" by auto
    from Cons.IH [OF this] True show ?thesis
      by (simp add: filter_removeAll_seen insert_absorb)
  next
    case False
    from Cons.prems False have o: "outcome cb n a k = Inr ()" by simp
    from Cons.prems have "\<forall>c \<in> set cbs - insert cb seen. outcome c n a k = Inr ()" by auto
    from Cons.IH [OF this] False o show ?thesis
      by (simp add: plain_def filter_removeAll_insert)
  qed
qed

lemma invoke_callbacks_plain_raises:
  "filter (\<lambda>c. c \<notin> seen) (first_occurrences cbs) = pre @ c # post \<Longrightarrow>
   \<forall>c' \<in> set pre. outcome c' n a k = Inr () \<Longrightarrow> outcome c n a k = Inl e \<Longrightarrow>
   invoke_callbacks (plain outcome) n a k cbs seen s =
     (Inl e, s\<lparr>calls := calls s @ map (\<lambda>c. (c, n, a, k)) (pre @ [c])\<rparr>)"
proof (induction cbs arbitrary: seen s pre)
  case Nil
  then show ?case by simp
next
  case (Cons cb cbs)
  show ?case
  proof (cases "cb \<in> seen")
    case True
    with Cons.prems(1)
    have "filter (\<lambda>c. c \<notin> seen) (first_occurrences cbs) = pre @ c # post"
      by (simp add: filter_removeAll_seen)
    from Cons.IH [OF this Cons.prems(2,3)] True show ?thesis by simp
  next
    case False
    with Cons.prems(1)
    have eq: "cb # filter (\<lambda>c. c \<notin> insert cb seen) (first_occurrences cbs) = pre @ c # post"
      by (simp add: filter_removeAll_insert)
    show ?thesis
    proof (cases pre)
      case Nil
      with eq have "cb = c" by simp
      with False Nil Cons.prems(3) show ?thesis by (simp add: plain_def)
    next
      case (Cons p pre')
      with eq have p: "p = cb"
        and rest: "filter (\<lambda>c. c \<notin> insert cb seen) (first_occurrences cbs) = pre' @ c # post"
        by auto
      from Cons Cons.prems(2) p have o: "outcome cb n a k = Inr ()"
        and "\<forall>c' \<in> set pre'. outcome c' n a k = Inr ()" by simp_all
      from Cons.IH [OF rest this(2) Cons.prems(3)] False o Cons p show ?thesis
        by (simp add: plain_def)
    qed
  qed
qed

lemma dispatch_event_plain_returns:
  assumes "\<forall>c \<in> set (delivery_order (subscribers s) n). outcome c n a k = Inr ()"
  shows "dispatch_event (plain outcome) n a k s =
     (Inr (delivery_order (subscribers s) n \<noteq> []),
      s\<lparr>calls := calls s @ map (\<lambda>c. (c, n, a, k)) (delivery_order (subscribers s) n)\<rparr>)"
proof -
  let ?cbs = "dict_get (subscribers s) n [] @ prefix_matching n (subscribers s)"
  from assms have "\<forall>c \<in> set ?cbs - {}. outcome c n a k = Inr ()"
    by (simp add: delivery_order_def)
  with invoke_callbacks_plain_returns
         [where cbs = ?cbs and seen = "{}" and outcome = outcome and n = n and a = a and k = k and s = s]
  have "invoke_callbacks (plain outcome) n a k ?cbs {} s =
     (Inr (set ?cbs), s\<lparr>calls := calls s @ map (\<lambda>c. (c, n, a, k)) (first_occurrences ?cbs)\<rparr>)"
    by simp
  moreover have "0 < card (set ?cbs) \<longleftrightarrow> first_occurrences ?cbs \<noteq> []"
    by (cases ?cbs) (simp_all add: card_gt_0_iff)
  ultimately show ?thesis
    by (simp add: dispatch_event_def delivery_order_def)
qed

lemma dispatch_event_plain_raises:
  assumes "delivery_order (subscribers s) n = pre @ c # post"
    and "\<forall>c' \<in> set pre. outcome c' n a k = Inr ()" and "outcome c n a k = Inl e"
  shows "dispatch_event (plain outcome) n a k s =
     (Inl e, s\<lparr>calls := calls s @ map (\<lambda>c. (c, n, a, k)) (pre @ [c])\<rparr>)"
proof -
  let ?cbs = "dict_get (subscribers s) n [] @ prefix_matching n (subscribers s)"
  from assms(1) have "filter (\<lambda>c. c \<notin> {}) (first_occurrences ?cbs) = pre @ c # post"
    by (simp add: delivery_order_def)
  with invoke_callbacks_plain_raises
         [where cbs = ?cbs and seen = "{}" and outcome = outcome and n = n and a = a and k = k
            and s = s and pre = pre and c = c and post = post and e = e] assms(2,3)
  show ?thesis
    by (simp add: dispatch_event_def)
qed

lemma dispatch_event_no_match:
  "delivery_order (subscribers s) n = [] \<Longrightarrow> dispatch_event call n a k s = (Inr False, s)"
proof -
  assume "delivery_order (subscribers s) n = []"
  then have "set (dict_get (subscribers s) n [] @ prefix_matching n (subscribers s)) = {}"
    unfolding delivery_order_def by (metis set_first_occurrences set_empty)
  then have "dict_get (subscribers s) n [] @ prefix_matching n (subscribers s) = []"
    by (simp only: set_empty)
  then show ?thesis by (simp add: dispatch_event_def)
qed

lemma dispatch_event_quiet:
  "dispatch_event quiet n a k s =
     (Inr (delivery_order (subscribers s) n \<noteq> []),
      s\<lparr>calls := calls s @ map (\<lambda>c. (c, n, a, k)) (delivery_order (subscribers s) n)\<rparr>)"
  unfolding quiet_plain by (rule dispatch_event_plain_returns) simp

lemma deque_append_room: "length q < maxlen \<Longrightarrow> deque_append maxlen q x = q @ [x]"
  by (simp add: deque_append_def)

lemma flush_loop_quiet:
  assumes "buffer s = xs @ ys" and "length xs = m" and "length (buffer s) \<le> buffer_max_size s"
    and "subscribers s = subs"
  shows "flush_loop quiet t m r s =
     (Inr (r + length (filter (\<lambda>(n, a, k). trims t n \<or> delivery_order subs n \<noteq> []) xs)),
      s\<lparr>buffer := ys @ filter (\<lambda>(n, a, k). \<not> trims t n \<and> delivery_order subs n = []) xs,
        calls := calls s @ concat (map (\<lambda>(n, a, k).
                   if trims t n then []
                   else map (\<lambda>c. (c, n, a, k)) (delivery_order subs n)) xs)\<rparr>)"
  using assms
proof (induction xs arbitrary: m r s ys)
  case Nil
  then show ?case by simp
next
  case (Cons x xs)
  obtain n a k where x: "x = (n, a, k)" by (cases x)
  from Cons.prems obtain m' where m: "m = Suc m'" and m': "length xs = m'" by (cases m) auto
  let ?s1 = "s\<lparr>buffer := xs @ ys\<rparr>"
  have b1: "buffer ?s1 = xs @ ys" by simp
  from Cons.prems have l1: "length (buffer ?s1) \<le> buffer_max_size ?s1" by simp
  from Cons.prems have r1: "subscribers ?s1 = subs" by simp
  show ?case
  proof (cases "trims t n")
    case True
    from Cons.IH [OF b1 m' l1 r1, of "r + 1"] True Cons.prems(1) show ?thesis
      by (simp add: m x trims_def)
  next
    case False
    note nt = this
    show ?thesis
    proof (cases "delivery_order subs n = []")
      case True
      let ?s2 = "s\<lparr>buffer := xs @ (ys @ [x])\<rparr>"
      have b2: "buffer ?s2 = xs @ (ys @ [x])" by simp
      from Cons.prems have l2: "length (buffer ?s2) \<le> buffer_max_size ?s2" by simp
      from Cons.prems have r2: "subscribers ?s2 = subs" by simp
      from Cons.prems have room: "length (xs @ ys) < buffer_max_size s" by simp
      from Cons.IH [OF b2 m' l2 r2, of r] True nt Cons.prems(1,4) room show ?thesis
        by (simp add: m x trims_def dispatch_event_quiet deque_append_room)
    next
      case False
      let ?s2 = "s\<lparr>buffer := xs @ ys,
                   calls := calls s @ map (\<lambda>c. (c, n, a, k)) (delivery_order subs n)\<rparr>"
      have b2: "buffer ?s2 = xs @ ys" by simp
      from Cons.prems have l2: "length (buffer ?s2) \<le> buffer_max_size ?s2" by simp
      from Cons.prems have r2: "subscribers ?s2 = subs" by simp
      from Cons.IH [OF b2 m' l2 r2, of "r + 1"] False nt Cons.prems(1,4) show ?thesis
        by (simp add: m x trims_def dispatch_event_quiet)
    qed
  qed
qed

lemma flush_buffer_quiet:
  assumes "length (buffer s) \<le> buffer_max_size s"
  shows "flush_buffer quiet t s =
     (Inr (length (filter (\<lambda>(n, a, k). trims t n \<or> delivery_order (subscribers s) n \<noteq> []) (buffer s))),
      s\<lparr>buffer := filter (\<lambda>(n, a, k). \<not> trims t n \<and> delivery_order (subscribers s) n = []) (buffer s),
        calls := calls s @ concat (map (\<lambda>(n, a, k).
                   if trims t n then []
                   else map (\<lambda>c. (c, n, a, k)) (delivery_order (subscribers s) n)) (buffer s))\<rparr>)"
  using flush_loop_quiet [of s "buffer s" "[]" "length (buffer s)" "subscribers s" t 0] assms
  by (simp add: flush_buffer_def)

lemma flush_loop_quiet_returns: "\<exists>r' s'. flush_loop quiet t m r s = (Inr r', s')"
proof (induction m arbitrary: r s)
  case 0
  then show ?case by simp
next
  case (Suc m)
  show ?case
  proof (cases "buffer s")
    case Nil
    then show ?thesis by simp
  next
    case (Cons x rest)
    obtain n a k where "x = (n, a, k)" by (cases x)
    with Cons Suc.IH show ?thesis
      by (simp add: dispatch_event_quiet Let_def)
  qed
qed

lemma example_bus_fields:
  "subscribers example_bus = [(''tool.execute'', [Logger, Failing]), (''tool.*'', [Audit, Logger])]"
  "buffer example_bus = [(''tool.result'', (), ())]"
  "buffer_max_size example_bus = 2"
  "calls example_bus = []"
  by (simp_all add: example_bus_def)

lemma example_order:
  "delivery_order (subscribers example_bus) ''tool.execute'' = [Logger, Failing, Audit]"
  "delivery_order (subscribers example_bus) ''tool.result'' = [Audit, Logger]"
  "delivery_order (subscribers example_bus) ''other'' = []"
  by (simp_all add: example_bus_def delivery_order_def dict_get_def startswith_def endswith_def)

lemma first_occurrences_snoc:
  "first_occurrences (xs @ [x]) =
     (if x \<in> set xs then first_occurrences xs else first_occurrences xs @ [x])"
  by (induction xs) auto

lemma first_occurrences_append:
  "first_occurrences (xs @ ys) =
     first_occurrences xs @ filter (\<lambda>c. c \<notin> set xs) (first_occurrences ys)"
  by (induction xs) (auto simp: removeAll_filter_not_eq intro: filter_cong)

lemma map_of_keyed:
  "map_of (map (\<lambda>p. (p, f p)) ks) q = (if q \<in> set ks then Some (f q) else None)"
  by (induction ks) auto

lemma update_keyed_absent:
  "q \<notin> set ks \<Longrightarrow> AList.update q v (map (\<lambda>p. (p, f p)) ks) = map (\<lambda>p. (p, f p)) ks @ [(q, v)]"
  by (induction ks) auto

lemma update_keyed_present:
  "q \<in> set ks \<Longrightarrow> distinct ks \<Longrightarrow>
   AList.update q v (map (\<lambda>p. (p, f p)) ks) = map (\<lambda>p. (p, (f(q := v)) p)) ks"
  by (induction ks) (auto simp: update_keyed_absent)

lemma update_keyed_absent_last:
  "q \<notin> set ks \<Longrightarrow>
   AList.update q v (map (\<lambda>p. (p, f p)) ks @ [(q, w)]) = map (\<lambda>p. (p, f p)) ks @ [(q, v)]"
  by (induction ks) auto

lemma registered_snoc:
  "registered (regs @ [(p, c)]) = (registered regs)(p := registered regs p @ [c])"
  by (auto simp: registered_def fun_eq_iff)

lemma registered_absent: "q \<notin> fst ` set regs \<Longrightarrow> registered regs q = []"
  by (induction regs) (auto simp: registered_def)

lemma subscribers_subscribe_all:
  "subscribers s = [] \<Longrightarrow>
   subscribers (subscribe_all regs s) =
     map (\<lambda>p. (p, registered regs p)) (first_occurrences (map fst regs))"
proof (induction regs rule: rev_induct)
  case Nil
  then show ?case by (simp add: subscribe_all_def registered_def)
next
  case (snoc x regs)
  obtain p c where x: "x = (p, c)" by (cases x)
  let ?ks = "first_occurrences (map fst regs)"
  let ?s = "subscribe_all regs s"
  from snoc have IH: "subscribers ?s = map (\<lambda>p. (p, registered regs p)) ?ks" by simp
  have step: "subscribe_all (regs @ [x]) s = snd (subscribe p c ?s)"
    by (simp add: subscribe_all_def x)
  show ?case
  proof (cases "p \<in> set (map fst regs)")
    case True
    then have "p \<in> set ?ks" by simp
    with IH show ?thesis
      unfolding step
      by (simp add: subscribe_def map_of_keyed dict_get_def update_keyed_present x
            first_occurrences_snoc registered_snoc True del: set_map)
  next
    case False
    then have nk: "p \<notin> set ?ks" by simp
    from False have r: "registered regs p = []" by (simp add: registered_absent)
    let ?R = "map (\<lambda>p. (p, registered regs p)) ?ks"
    from nk have none: "map_of ?R p = None" by (simp add: map_of_keyed)
    from none have get: "dict_get (?R @ [(p, [])]) p [] = []"
      by (simp add: dict_get_def map_add_def del: map_of_map)
    from IH none have "subscribers (snd (subscribe p c ?s)) = AList.update p [c] (?R @ [(p, [])])"
      using nk by (simp add: subscribe_def update_keyed_absent get)
    also from nk have "\<dots> = ?R @ [(p, [c])]" by (rule update_keyed_absent_last)
    also from nk False r
    have "\<dots> = map (\<lambda>q. (q, registered (regs @ [x]) q)) (first_occurrences (map fst (regs @ [x])))"
      by (auto simp add: first_occurrences_snoc registered_snoc x simp del: set_map)
    finally show ?thesis unfolding step .
  qed
qed

lemma dict_get_keyed:
  "dict_get (map (\<lambda>p. (p, registered regs p)) (first_occurrences (map fst regs))) q [] =
     registered regs q"
  by (simp add: dict_get_def map_of_keyed registered_absent)

lemma prefix_matching_keyed:
  "prefix_matching n (map (\<lambda>p. (p, f p)) ks) =
     concat (map f (filter (\<lambda>q. endswith q ''.*'' \<and> startswith n (take (length q - 2) q)) ks))"
  by (induction ks) auto

lemma set_registered: "set (registered regs q) = {c. (q, c) \<in> set regs}"
  by (induction regs) (auto simp: registered_def)

lemma count_list_distinct: "distinct xs \<Longrightarrow> x \<in> set xs \<Longrightarrow> count_list xs x = 1"
  by (induction xs) (auto simp: count_list_0_iff)

lemma prefix_matching_member:
  "(p, cbs) \<in> set subs \<Longrightarrow> c \<in> set cbs \<Longrightarrow> endswith p ''.*'' \<Longrightarrow>
   startswith n (take (length p - 2) p) \<Longrightarrow> c \<in> set (prefix_matching n subs)"
  by (induction subs) auto

lemma delivery_order_member:
  assumes "map_of subs p = Some cbs" and "c \<in> set cbs" and "pattern_matches p n"
  shows "c \<in> set (delivery_order subs n)"
proof (cases "p = n")
  case True
  with assms(1,2) show ?thesis by (simp add: delivery_order_def dict_get_def)
next
  case False
  with assms(3) have "endswith p ''.*''" "startswith n (take (length p - 2) p)"
    by (simp_all add: pattern_matches_def)
  with prefix_matching_member [OF map_of_SomeD [OF assms(1)] assms(2)]
  show ?thesis by (simp add: delivery_order_def)
qed

lemma subscribe_registers:
  "\<exists>cbs. map_of (subscribers (snd (subscribe p c s))) p = Some (cbs @ [c])"
  by (simp add: subscribe_def Let_def update_conv')

lemma subscribe_frame:
  "buffer (snd (subscribe p c s)) = buffer s"
  "buffer_max_size (snd (subscribe p c s)) = buffer_max_size s"
  "calls (snd (subscribe p c s)) = calls s"
  "fst (subscribe p c s) = True"
  by (simp_all add: subscribe_def Let_def)

lemma example_pending_published:
  "buffered_publish quiet ''tool.execute'' () () (init_bus 2) = (Inr False, example_pending)"
proof -
  have "publish quiet ''tool.execute'' () () (init_bus 2 :: (example_cb, unit, unit) bus)
          = (Inr False, init_bus 2)"
    by (simp add: publish_def dispatch_event_quiet delivery_order_def dict_get_def init_bus_def)
  then show ?thesis
    by (simp add: buffered_publish_def flush_buffer_quiet deque_append_def trims_def
          delivery_order_def dict_get_def init_bus_def example_pending_def)
qed

lemma example_pending_subscribed:
  "buffered_subscribe quiet ''tool.*'' Audit example_pending =
     (Inr True, \<lparr>subscribers = [(''tool.*'', [Audit])], buffer = [], buffer_max_size = 2,
                  calls = [(Audit, ''tool.execute'', (), ())]\<rparr>)"
proof -
  have sub: "subscribe ''tool.*'' Audit example_pending =
      (True, example_pending\<lparr>subscribers := [(''tool.*'', [Audit])]\<rparr>)"
    by (simp add: subscribe_def example_pending_def dict_get_def)
  have ord: "delivery_order [(''tool.*'', [Audit])] ''tool.execute'' = [Audit]"
    by (simp add: delivery_order_def dict_get_def startswith_def endswith_def)
  show ?thesis
    unfolding buffered_subscribe_def sub
    by (simp add: flush_buffer_quiet trims_def example_pending_def ord)
qed

lemma list_remove_present: "x \<in> set xs \<Longrightarrow> list_remove xs x = Some (remove1 x xs)"
  by (induction xs) auto

lemma count_list_remove1:
  "count_list (remove1 x xs) y = (if x = y \<and> x \<in> set xs then count_list xs y - 1 else count_list xs y)"
  by (induction xs) auto

lemma within_capacity_calls [simp]:
  "within_capacity C (s\<lparr>calls := x\<rparr>) = within_capacity C s"
  "within_capacity C (s\<lparr>subscribers := y\<rparr>) = within_capacity C s"
  by (simp_all add: within_capacity_def)

lemma within_capacity_pop:
  "within_capacity C s \<Longrightarrow> buffer s = x # rest \<Longrightarrow> within_capacity C (s\<lparr>buffer := rest\<rparr>)"
  by (simp add: within_capacity_def)

lemma within_capacity_append:
  "within_capacity C s \<Longrightarrow>
   within_capacity C (s\<lparr>buffer := deque_append (buffer_max_size s) (buffer s) x\<rparr>)"
  by (auto simp: within_capacity_def deque_append_def Let_def)

lemma invoke_callbacks_capacity:
  assumes call: "\<And>cb n a k s. within_capacity C s \<Longrightarrow> within_capacity C (snd (call cb n a k s))"
  shows "within_capacity C s \<Longrightarrow> within_capacity C (snd (invoke_callbacks call n a k cbs seen s))"
proof (induction cbs arbitrary: seen s)
  case Nil
  then show ?case by simp
next
  case (Cons cb cbs)
  show ?case
  proof (cases "cb \<in> seen")
    case True
    with Cons show ?thesis by simp
  next
    case False
    let ?s = "s\<lparr>calls := calls s @ [(cb, n, a, k)]\<rparr>"
    obtain r s' where c: "call cb n a k ?s = (r, s')" by (cases "call cb n a k ?s")
    from Cons.prems have "within_capacity C ?s" by simp
    from call [OF this, of cb n a k] c have w: "within_capacity C s'" by simp
    show ?thesis
    proof (cases r)
      case (Inl e)
      with False c w show ?thesis by simp
    next
      case (Inr u)
      with False c Cons.IH [OF w] show ?thesis by simp
    qed
  qed
qed

lemma dispatch_event_capacity:
  assumes call: "\<And>cb n a k s. within_capacity C s \<Longrightarrow> within_capacity C (snd (call cb n a k s))"
    and "within_capacity C s"
  shows "within_capacity C (snd (dispatch_event call n a k s))"
  using invoke_callbacks_capacity [of C call s n a k
          "dict_get (subscribers s) n [] @ prefix_matching n (subscribers s)" "{}", OF call assms(2)]
  by (auto simp: dispatch_event_def split: prod.splits sum.splits)

lemma flush_loop_capacity:
  assumes call: "\<And>cb n a k s. within_capacity C s \<Longrightarrow> within_capacity C (snd (call cb n a k s))"
  shows "within_capacity C s \<Longrightarrow> within_capacity C (snd (flush_loop call t m r s))"
proof (induction m arbitrary: r s)
  case 0
  then show ?case by simp
next
  case (Suc m)
  show ?case
  proof (cases "buffer s")
    case Nil
    with Suc.prems show ?thesis by simp
  next
    case (Cons x rest)
    obtain n a k where x: "x = (n, a, k)" by (cases x)
    let ?s1 = "s\<lparr>buffer := rest\<rparr>"
    from within_capacity_pop [OF Suc.prems Cons] have w1: "within_capacity C ?s1" .
    show ?thesis
    proof (cases "case t of None \<Rightarrow> False | Some p \<Rightarrow> p \<noteq> [] \<and> startswith n p")
      case True
      with Cons x Suc.IH [OF w1] show ?thesis by simp
    next
      case False
      obtain d s2 where d: "dispatch_event call n a k ?s1 = (d, s2)"
        by (cases "dispatch_event call n a k ?s1")
      from dispatch_event_capacity [of C call ?s1 n a k, OF call w1] d
      have w2: "within_capacity C s2" by simp
      show ?thesis
      proof (cases d)
        case (Inl e)
        with Cons x False d w2 show ?thesis by simp
      next
        case (Inr delivered)
        from within_capacity_append [OF w2]
        have w3: "within_capacity C
            (s2\<lparr>buffer := deque_append (buffer_max_size s2) (buffer s2) (n, a, k)\<rparr>)" .
        from Inr Cons x False d Suc.IH [OF w2] Suc.IH [OF w3] show ?thesis by simp
      qed
    qed
  qed
qed

lemma flush_buffer_capacity:
  assumes call: "\<And>cb n a k s. within_capacity C s \<Longrightarrow> within_capacity C (snd (call cb n a k s))"
    and "within_capacity C s"
  shows "within_capacity C (snd (flush_buffer call t s))"
  unfolding flush_buffer_def using call assms(2) by (rule flush_loop_capacity)

lemma run_action_capacity:
  assumes call: "\<And>cb n a k s. within_capacity C s \<Longrightarrow> within_capacity C (snd (call cb n a k s))"
    and w: "within_capacity C s"
  shows "within_capacity C (snd (run_action call x s))"
proof (cases x)
  case (Publish n a k)
  obtain d s1 where d: "publish call n a k s = (d, s1)" by (cases "publish call n a k s")
  from dispatch_event_capacity [of C call s n a k, OF call w] d
  have w1: "within_capacity C s1" by (simp add: publish_def)
  show ?thesis
  proof (cases d)
    case (Inl e)
    with Publish d w1 show ?thesis by (simp add: buffered_publish_def)
  next
    case (Inr delivered)
    let ?s2 = "if \<not> delivered
               then s1\<lparr>buffer := deque_append (buffer_max_size s1) (buffer s1) (n, a, k)\<rparr>
               else s1"
    from w1 have "within_capacity C ?s2" by (simp add: within_capacity_append)
    from flush_buffer_capacity [of C call ?s2 None, OF call this] Publish d Inr
    show ?thesis
      by (auto simp: buffered_publish_def Let_def split: prod.splits sum.splits)
  qed
next
  case (Subscribe p c)
  have sub: "subscribe p c s = (True, snd (subscribe p c s))"
    by (simp add: subscribe_def Let_def)
  from w have "within_capacity C (snd (subscribe p c s))"
    by (simp add: subscribe_def Let_def)
  from flush_buffer_capacity [of C call "snd (subscribe p c s)" None, OF call this] Subscribe
  show ?thesis
    unfolding run_action.simps buffered_subscribe_def Subscribe
    by (subst sub) (auto split: prod.splits sum.splits)
next
  case (Unsubscribe p c)
  with w show ?thesis
    by (auto simp: unsubscribe_def split: option.splits)
next
  case (TrimByPrefix p)
  from flush_buffer_capacity [of C call s "Some p", OF call w] TrimByPrefix
  show ?thesis
    by (auto simp: trim_by_prefix_def split: prod.splits sum.splits)
next
  case (Raise msg)
  with w show ?thesis by simp
qed

lemma run_actions_capacity:
  assumes call: "\<And>cb n a k s. within_capacity C s \<Longrightarrow> within_capacity C (snd (call cb n a k s))"
  shows "within_capacity C s \<Longrightarrow> within_capacity C (snd (run_actions call xs s))"
proof (induction xs arbitrary: s)
  case Nil
  then show ?case by simp
next
  case (Cons x xs)
  obtain r s1 where r: "run_action call x s = (r, s1)" by (cases "run_action call x s")
  from run_action_capacity [of C call s x, OF call Cons.prems] r
  have "within_capacity C s1" by simp
  with Cons.IH [of s1] r show ?case by (cases r) simp_all
qed

lemma invoke_capacity:
  "within_capacity C s \<Longrightarrow> within_capacity C (snd (invoke limit behaviour cb n a k s))"
proof (induction limit arbitrary: cb n a k s)
  case 0
  then show ?case by simp
next
  case (Suc limit)
  from run_actions_capacity [of C "invoke limit behaviour" s "behaviour cb n a k"] Suc
  show ?case by simp
qed

lemma run_program_capacity:
  assumes call: "\<And>cb n a k s. within_capacity C s \<Longrightarrow> within_capacity C (snd (call cb n a k s))"
  shows "within_capacity C s \<Longrightarrow> within_capacity C (run_program call prog s)"
proof (induction prog arbitrary: s)
  case Nil
  then show ?case by (simp add: run_program_def)
next
  case (Cons x prog)
  from run_action_capacity [of C call s x, OF call Cons.prems]
  have "within_capacity C (snd (run_action call x s))" .
  from Cons.IH [OF this] show ?case by (simp add: run_program_def)
qed

lemma flush_loop_undeliverable:
  assumes "buffer s = xs @ ys" and "length xs = m" and "length (buffer s) \<le> buffer_max_size s"
    and "\<forall>e \<in> set xs. delivery_order (subscribers s) (fst e) = []"
  shows "flush_loop call None m r s = (Inr r, s\<lparr>buffer := ys @ xs\<rparr>)"
  using assms
proof (induction xs arbitrary: m s ys)
  case Nil
  then show ?case by simp
next
  case (Cons x xs)
  obtain n a k where x: "x = (n, a, k)" by (cases x)
  from Cons.prems obtain m' where m: "m = Suc m'" and m': "length xs = m'" by (cases m) auto
  let ?s1 = "s\<lparr>buffer := xs @ ys\<rparr>"
  let ?s2 = "s\<lparr>buffer := xs @ (ys @ [x])\<rparr>"
  from Cons.prems x have "delivery_order (subscribers ?s1) n = []" by simp
  then have d: "dispatch_event call n a k ?s1 = (Inr False, ?s1)"
    by (rule dispatch_event_no_match)
  from Cons.prems have room: "length (xs @ ys) < buffer_max_size s" by simp
  have b2: "buffer ?s2 = xs @ (ys @ [x])" by simp
  from Cons.prems have l2: "length (buffer ?s2) \<le> buffer_max_size ?s2" by simp
  from Cons.prems have u2: "\<forall>e \<in> set xs. delivery_order (subscribers ?s2) (fst e) = []" by simp
  from Cons.IH [OF b2 m' l2 u2] Cons.prems(1) d room show ?case
    by (simp add: m x deque_append_room)
qed

lemma buffered_publish_undeliverable:
  assumes "delivery_order (subscribers s) n = []"
    and "\<forall>e \<in> set (buffer s). delivery_order (subscribers s) (fst e) = []"
    and "length (buffer s) \<le> buffer_max_size s"
  shows "buffered_publish call n a k s =
     (Inr False, s\<lparr>buffer := deque_append (buffer_max_size s) (buffer s) (n, a, k)\<rparr>)"
proof -
  let ?b = "deque_append (buffer_max_size s) (buffer s) (n, a, k)"
  let ?s2 = "s\<lparr>buffer := ?b\<rparr>"
  from assms(1) have p: "publish call n a k s = (Inr False, s)"
    unfolding publish_def by (rule dispatch_event_no_match)
  have sub: "set ?b \<subseteq> insert (n, a, k) (set (buffer s))"
    by (cases "buffer s") (auto simp: deque_append_def Let_def)
  from assms(3) have len: "length (buffer ?s2) \<le> buffer_max_size ?s2"
    by (auto simp: deque_append_def Let_def)
  from sub assms(1,2) have und: "\<forall>e \<in> set ?b. delivery_order (subscribers ?s2) (fst e) = []"
    by auto
  from flush_loop_undeliverable [of ?s2 ?b "[]" "length ?b" call 0] len und
  have "flush_buffer call None ?s2 = (Inr 0, ?s2)"
    by (simp add: flush_buffer_def)
  with p show ?thesis by (simp add: buffered_publish_def)
qed

lemma deque_append_drop:
  "length q \<le> maxlen \<Longrightarrow>
   deque_append maxlen q x = drop (length (q @ [x]) - maxlen) (q @ [x])"
  by (cases q) (auto simp: deque_append_def Let_def Suc_diff_le drop_Cons')

lemma drop_append_within: "d \<le> length xs \<Longrightarrow> drop d xs @ ys = drop d (xs @ ys)"
  by simp

lemma init_bus_within_capacity: "within_capacity C (init_bus C)"
  by (simp add: within_capacity_def init_bus_def)

lemma run_publishes_undeliverable:
  assumes "\<forall>e \<in> set evs. delivery_order (subscribers s) (fst e) = []"
    and "\<forall>e \<in> set (buffer s). delivery_order (subscribers s) (fst e) = []"
    and "length (buffer s) \<le> buffer_max_size s"
  shows "run_program call (map (\<lambda>(n, a, k). Publish n a k) evs) s =
     s\<lparr>buffer := drop (length (buffer s @ evs) - buffer_max_size s) (buffer s @ evs)\<rparr>"
  using assms
proof (induction evs arbitrary: s)
  case Nil
  then show ?case by (simp add: run_program_def)
next
  case (Cons e evs)
  obtain n a k where e: "e = (n, a, k)" by (cases e)
  let ?C = "buffer_max_size s"
  let ?b = "deque_append ?C (buffer s) (n, a, k)"
  let ?s1 = "s\<lparr>buffer := ?b\<rparr>"
  from Cons.prems e have "delivery_order (subscribers s) n = []" by simp
  from buffered_publish_undeliverable [OF this Cons.prems(2,3), of call a k]
  have step: "snd (run_action call (Publish n a k) s) = ?s1" by simp
  from Cons.prems(3) have b: "?b = drop (length (buffer s @ [e]) - ?C) (buffer s @ [e])"
    unfolding e by (rule deque_append_drop)
  have sub: "set ?b \<subseteq> insert e (set (buffer s))"
    unfolding b by (auto dest: in_set_dropD)
  from Cons.prems(3) have len: "length (buffer ?s1) \<le> buffer_max_size ?s1"
    by (simp add: b)
  from Cons.prems(1) have u1: "\<forall>e \<in> set evs. delivery_order (subscribers ?s1) (fst e) = []"
    by simp
  from Cons.prems(1,2) sub have u2: "\<forall>e \<in> set (buffer ?s1). delivery_order (subscribers ?s1) (fst e) = []"
    by auto
  have "run_program call (map (\<lambda>(n, a, k). Publish n a k) (e # evs)) s =
        run_program call (map (\<lambda>(n, a, k). Publish n a k) evs) ?s1"
    using step by (simp add: run_program_def e)
  also from Cons.IH [OF u1 u2 len]
  have "\<dots> = ?s1\<lparr>buffer := drop (length (?b @ evs) - ?C) (?b @ evs)\<rparr>" by simp
  also have "drop (length (?b @ evs) - ?C) (?b @ evs) =
      drop (length (buffer s @ e # evs) - ?C) (buffer s @ e # evs)"
  proof -
    define d where "d = length (buffer s @ [e]) - ?C"
    define L where "L = buffer s @ e # evs"
    have "?b @ evs = drop d (buffer s @ [e]) @ evs" by (simp only: b d_def)
    also have "\<dots> = drop d ((buffer s @ [e]) @ evs)"
      by (rule drop_append_within) (simp add: d_def)
    also have "\<dots> = drop d L" by (simp add: L_def)
    finally have eq: "?b @ evs = drop d L" .
    have "length L - d - ?C + d = length L - ?C" by (simp add: d_def L_def)
    then show ?thesis unfolding eq L_def [symmetric] by (simp add: add.commute)
  qed
  finally show ?case by simp
qed

lemma invoke_Suc_apply:
  "invoke (Suc limit) behaviour cb n a k s =
     run_actions (invoke limit behaviour) (behaviour cb n a k) s"
  by simp

lemma flush_loop_same_without_prefix:
  "flush_loop call (Some []) m r s = flush_loop call None m r s"
  by (induction m arbitrary: r s) (auto split: list.splits prod.splits sum.splits)

lemma py_eq_key: "py_eq a b \<longleftrightarrow> py_key a = py_key b"
  by (cases a; cases b) auto

lemma length_filter_two:
  assumes "distinct xs" and "A \<in> set xs" and "B \<in> set xs"
  shows "length (filter (\<lambda>x. x = A \<or> x = B) xs) = (if A = B then 1 else 2)"
proof -
  from assms(1) have "length (filter (\<lambda>x. x = A \<or> x = B) xs) = card ({x. x = A \<or> x = B} \<inter> set xs)"
    by (rule distinct_length_filter)
  also from assms(2,3) have "{x. x = A \<or> x = B} \<inter> set xs = {A, B}" by auto
  finally show ?thesis by simp
qed

lemma remove1_split:
  "x \<in> set xs \<Longrightarrow> \<exists>us vs. xs = us @ x # vs \<and> x \<notin> set us \<and> remove1 x xs = us @ vs"
  using list_remove_split [of xs x "remove1 x xs"] by (simp add: list_remove_present)

lemma example_methods_built:
  "subscribe_all [(''tool.execute'', py_key (PyBoundMethod 101 7 3)),
                  (''tool.execute'', py_key (PyFunction 11)),
                  (''tool.*'', py_key (PyBoundMethod 102 7 3)),
                  (''tool.*'', py_key (PyFunction 12))] (init_bus 2) = example_methods"
  by (simp add: subscribe_all_def subscribe_def init_bus_def example_methods_def dict_get_def)

lemma example_methods_order:
  "delivery_order (subscribers example_methods) ''tool.execute'' =
     [MethodKey 7 3, FunctionKey 11, FunctionKey 12]"
  by (simp add: example_methods_def delivery_order_def dict_get_def startswith_def endswith_def)

section \<open>Dispatch on the core bus\<close>

text \<open>
  C1. Take the registry built by any sequence \<open>regs\<close> of \<open>subscribe\<close> calls, callbacks
  that return normally and do not use the bus, and a \<open>publish(name, a, k)\<close>. The
  invocations it makes are those of \<open>order\<close>, each with \<open>(name, a, k)\<close>: first the
  callbacks registered under exactly \<open>name\<close>, in registration order, then those of the
  prefix patterns that match, the patterns in the order in which they were first
  registered and the callbacks of one pattern in registration order, every callback
  only where it occurs first. So no callback is invoked twice, the callbacks invoked are
  those registered under a matching pattern, each of them exactly once, and the result
  is true exactly when some callback was invoked.
\<close>

theorem publish_invokes_each_matching_once:
  "let s = subscribe_all regs (init_bus C);
       exact = registered regs name;
       patterns = filter (\<lambda>q. endswith q ''.*'' \<and> startswith name (take (length q - 2) q))
                    (first_occurrences (map fst regs));
       prefixed = concat (map (registered regs) patterns);
       order = first_occurrences exact @ filter (\<lambda>c. c \<notin> set exact) (first_occurrences prefixed)
   in publish quiet name a k s =
        (Inr (order \<noteq> []), s\<lparr>calls := map (\<lambda>c. (c, name, a, k)) order\<rparr>)
      \<and> distinct order
      \<and> set order = {c. \<exists>p. (p, c) \<in> set regs \<and> pattern_matches p name}
      \<and> (\<forall>p c. (p, c) \<in> set regs \<and> pattern_matches p name \<longrightarrow>
             count_list (map (\<lambda>c. (c, name, a, k)) order) (c, name, a, k) = 1)"
proof -
  define s :: "('a, 'b, 'c) bus" where "s = subscribe_all regs (init_bus C)"
  define exact where "exact = registered regs name"
  define patterns where "patterns =
    filter (\<lambda>q. endswith q ''.*'' \<and> startswith name (take (length q - 2) q))
      (first_occurrences (map fst regs))"
  define prefixed where "prefixed = concat (map (registered regs) patterns)"
  define order where
    "order = first_occurrences exact @ filter (\<lambda>c. c \<notin> set exact) (first_occurrences prefixed)"
  have subs: "subscribers s =
      map (\<lambda>p. (p, registered regs p)) (first_occurrences (map fst regs))"
    unfolding s_def by (rule subscribers_subscribe_all) (simp add: init_bus_def)
  have "calls (subscribe_all regs t) = calls t" for t :: "('a, 'b, 'c) bus"
    by (induction regs arbitrary: t rule: rev_induct)
       (auto simp: subscribe_all_def subscribe_def Let_def)
  then have calls: "calls s = []" by (simp add: s_def init_bus_def)
  have ord: "delivery_order (subscribers s) name = order"
    by (simp add: delivery_order_def subs dict_get_keyed prefix_matching_keyed
          first_occurrences_append order_def exact_def prefixed_def patterns_def del: set_map)
  have pub: "publish quiet name a k s =
        (Inr (order \<noteq> []), s\<lparr>calls := map (\<lambda>c. (c, name, a, k)) order\<rparr>)"
    by (simp add: publish_def dispatch_event_quiet ord calls)
  have dist: "distinct order"
    unfolding ord [symmetric] delivery_order_def by simp
  have "set order = set exact \<union> set prefixed"
    by (auto simp: order_def)
  also have "\<dots> = {c. \<exists>p. (p, c) \<in> set regs \<and> pattern_matches p name}"
    by (auto simp: exact_def prefixed_def patterns_def set_registered pattern_matches_def
          intro: rev_image_eqI)
  finally have set_order: "set order = {c. \<exists>p. (p, c) \<in> set regs \<and> pattern_matches p name}" .
  have once: "count_list (map (\<lambda>c. (c, name, a, k)) order) (c, name, a, k) = 1"
    if "(p, c) \<in> set regs" "pattern_matches p name" for p c
  proof -
    from that set_order have "c \<in> set order" by blast
    moreover from dist have "distinct (map (\<lambda>c. (c, name, a, k)) order)"
      by (simp add: distinct_map inj_on_def)
    ultimately show ?thesis by (intro count_list_distinct) auto
  qed
  from pub dist set_order once show ?thesis
    unfolding Let_def s_def exact_def patterns_def prefixed_def order_def by blast
qed

theorem publish_invokes_each_matching_once_witness:
  "publish quiet ''tool.execute'' () () (subscribe_all example_regs (init_bus 2)) =
     (Inr True,
      (subscribe_all example_regs (init_bus 2))
        \<lparr>calls := [(Logger, ''tool.execute'', (), ()), (Audit, ''tool.execute'', (), ()),
                   (Metrics, ''tool.execute'', (), ())]\<rparr>)
   \<and> (''tool.*'', Audit) \<in> set example_regs
   \<and> pattern_matches ''tool.*'' ''tool.execute''
   \<and> (''tool.execute'', Audit) \<in> set example_regs
   \<and> pattern_matches ''tool.execute'' ''tool.execute''
   \<and> count_list [(Logger, ''tool.execute'', (), ()), (Audit, ''tool.execute'', (), ()),
                   (Metrics, ''tool.execute'', (), ())] (Audit, ''tool.execute'', (), ()) = 1"
proof -
  have m: "pattern_matches ''tool.*'' ''tool.execute''"
    "pattern_matches ''tool.execute'' ''tool.execute''"
    by (simp_all add: pattern_matches_def startswith_def endswith_def)
  have r: "(''tool.*'', Audit) \<in> set example_regs" "(''tool.execute'', Audit) \<in> set example_regs"
    by (simp_all add: example_regs_def)
  from publish_invokes_each_matching_once
         [where regs = example_regs and name = "''tool.execute''" and C = 2 and a = "()"
            and k = "()", unfolded Let_def, THEN conjunct1]
  have "publish quiet ''tool.execute'' () () (subscribe_all example_regs (init_bus 2)) =
     (Inr True,
      (subscribe_all example_regs (init_bus 2))
        \<lparr>calls := [(Logger, ''tool.execute'', (), ()), (Audit, ''tool.execute'', (), ()),
                   (Metrics, ''tool.execute'', (), ())]\<rparr>)"
    by (simp add: example_regs_def registered_def startswith_def endswith_def)
  with m r show ?thesis by simp
qed

text \<open>
  C9, as stated, fails where identity and equality of callback objects differ. Two method
  objects of the same method of the same instance are different objects and equal. When
  one is registered under \<open>tool.execute\<close> and the other under \<open>tool.*\<close>, a publish of
  \<open>tool.execute\<close> invokes one callback for the two registrations, not each; and
  \<open>unsubscribe\<close> with a third such object, which is registered nowhere, returns true and
  removes the registration of the first.
\<close>

theorem equal_callbacks_are_one_subscription_counterexample:
  "\<not> same_object (PyBoundMethod 101 7 3) (PyBoundMethod 102 7 3)
   \<and> py_eq (PyBoundMethod 101 7 3) (PyBoundMethod 102 7 3)
   \<and> subscribe_all [(''tool.execute'', py_key (PyBoundMethod 101 7 3)),
                      (''tool.execute'', py_key (PyFunction 11)),
                      (''tool.*'', py_key (PyBoundMethod 102 7 3)),
                      (''tool.*'', py_key (PyFunction 12))] (init_bus 2) = example_methods
   \<and> pattern_matches ''tool.execute'' ''tool.execute''
   \<and> pattern_matches ''tool.*'' ''tool.execute''
   \<and> publish quiet ''tool.execute'' () () example_methods =
        (Inr True,
         example_methods\<lparr>calls := [(py_key (PyBoundMethod 101 7 3), ''tool.execute'', (), ()),
                                    (py_key (PyFunction 11), ''tool.execute'', (), ()),
                                    (py_key (PyFunction 12), ''tool.execute'', (), ())]\<rparr>)
   \<and> \<not> same_object (PyBoundMethod 103 7 3) (PyBoundMethod 101 7 3)
   \<and> \<not> same_object (PyBoundMethod 103 7 3) (PyBoundMethod 102 7 3)
   \<and> unsubscribe ''tool.execute'' (py_key (PyBoundMethod 103 7 3)) example_methods =
        (True, example_methods\<lparr>subscribers :=
                 [(''tool.execute'', [py_key (PyFunction 11)]),
                  (''tool.*'', [py_key (PyBoundMethod 102 7 3), py_key (PyFunction 12)])]\<rparr>)"
proof -
  have "publish quiet ''tool.execute'' () () example_methods =
        (Inr True,
         example_methods\<lparr>calls := [(py_key (PyBoundMethod 101 7 3), ''tool.execute'', (), ()),
                                    (py_key (PyFunction 11), ''tool.execute'', (), ()),
                                    (py_key (PyFunction 12), ''tool.execute'', (), ())]\<rparr>)"
    by (simp add: publish_def dispatch_event_quiet example_methods_order)
       (simp add: example_methods_def)
  moreover have "unsubscribe ''tool.execute'' (py_key (PyBoundMethod 103 7 3)) example_methods =
        (True, example_methods\<lparr>subscribers :=
                 [(''tool.execute'', [py_key (PyFunction 11)]),
                  (''tool.*'', [py_key (PyBoundMethod 102 7 3), py_key (PyFunction 12)])]\<rparr>)"
    by (simp add: unsubscribe_def example_methods_def)
  ultimately show ?thesis
    using example_methods_built
    by (simp add: pattern_matches_def startswith_def endswith_def)
qed

text \<open>
  C9, amended. Equality of the callback objects (\<open>==\<close>), not their identity, decides
  deduplication and removal. Let an object equal to \<open>a\<close> be registered under a pattern
  \<open>p1\<close> and an object equal to \<open>b\<close> under a pattern \<open>p2\<close>, both matching the event, with
  callbacks that return normally and do not use the bus. A publish makes one invocation
  for the two when \<open>a\<close> and \<open>b\<close> are equal, and one for each when they are not.
  \<open>unsubscribe(p1, c)\<close> returns true exactly when an object equal to \<open>c\<close> is registered
  under \<open>p1\<close>, and it removes the first registration under \<open>p1\<close> that is equal to \<open>c\<close>.
\<close>

theorem callback_equality_decides:
  assumes "map_of (subscribers s) p1 = Some cbs1" and "py_key a \<in> set cbs1"
    and "pattern_matches p1 n"
    and "map_of (subscribers s) p2 = Some cbs2" and "py_key b \<in> set cbs2"
    and "pattern_matches p2 n"
  shows "(\<exists>new. publish quiet n args k s = (Inr True, s\<lparr>calls := calls s @ new\<rparr>)
            \<and> length (filter (\<lambda>x. x = (py_key a, n, args, k) \<or> x = (py_key b, n, args, k)) new)
                = (if py_eq a b then 1 else 2))
         \<and> (fst (unsubscribe p1 (py_key c) s) \<longleftrightarrow> (\<exists>x \<in> set cbs1. x = py_key c))
         \<and> (py_eq c a \<longrightarrow>
              (\<exists>us vs. cbs1 = us @ py_key a # vs \<and> py_key a \<notin> set us
                 \<and> unsubscribe p1 (py_key c) s =
                       (True, s\<lparr>subscribers := AList.update p1 (us @ vs) (subscribers s)\<rparr>)))"
proof (intro conjI impI)
  let ?order = "delivery_order (subscribers s) n"
  let ?new = "map (\<lambda>c. (c, n, args, k)) ?order"
  from assms have m: "py_key a \<in> set ?order" "py_key b \<in> set ?order"
    by (auto intro: delivery_order_member)
  then have ne: "?order \<noteq> []" by auto
  have d: "distinct ?new"
    by (simp add: distinct_map inj_on_def delivery_order_def)
  from m have "(py_key a, n, args, k) \<in> set ?new" "(py_key b, n, args, k) \<in> set ?new" by auto
  from length_filter_two [OF d this]
  have "length (filter (\<lambda>x. x = (py_key a, n, args, k) \<or> x = (py_key b, n, args, k)) ?new)
      = (if py_eq a b then 1 else 2)"
    by (simp add: py_eq_key)
  moreover from ne have "publish quiet n args k s = (Inr True, s\<lparr>calls := calls s @ ?new\<rparr>)"
    by (simp add: publish_def dispatch_event_quiet)
  ultimately show "\<exists>new. publish quiet n args k s = (Inr True, s\<lparr>calls := calls s @ new\<rparr>)
            \<and> length (filter (\<lambda>x. x = (py_key a, n, args, k) \<or> x = (py_key b, n, args, k)) new)
                = (if py_eq a b then 1 else 2)"
    by blast
next
  show "fst (unsubscribe p1 (py_key c) s) \<longleftrightarrow> (\<exists>x \<in> set cbs1. x = py_key c)"
  proof (cases "list_remove cbs1 (py_key c)")
    case None
    with assms(1) have "unsubscribe p1 (py_key c) s = (False, s)" by (simp add: unsubscribe_def)
    moreover from None have "py_key c \<notin> set cbs1" by (simp add: list_remove_None)
    ultimately show ?thesis by simp
  next
    case (Some zs)
    with assms(1) have "fst (unsubscribe p1 (py_key c) s)" by (simp add: unsubscribe_def)
    moreover from list_remove_Some [OF Some] have "py_key c \<in> set cbs1" by simp
    ultimately show ?thesis by simp
  qed
next
  assume "py_eq c a"
  then have eq: "py_key c = py_key a" by (simp add: py_eq_key)
  from remove1_split [OF assms(2)] obtain us vs
    where *: "cbs1 = us @ py_key a # vs" "py_key a \<notin> set us" "remove1 (py_key a) cbs1 = us @ vs"
    by blast
  from assms(1,2) have "unsubscribe p1 (py_key a) s =
      (True, s\<lparr>subscribers := AList.update p1 (remove1 (py_key a) cbs1) (subscribers s)\<rparr>)"
    by (simp add: unsubscribe_def list_remove_present)
  with * eq show "\<exists>us vs. cbs1 = us @ py_key a # vs \<and> py_key a \<notin> set us
                 \<and> unsubscribe p1 (py_key c) s =
                       (True, s\<lparr>subscribers := AList.update p1 (us @ vs) (subscribers s)\<rparr>)"
    by auto
qed

theorem callback_equality_decides_witness:
  "map_of (subscribers example_methods) ''tool.execute''
       = Some [py_key (PyBoundMethod 101 7 3), py_key (PyFunction 11)]
   \<and> map_of (subscribers example_methods) ''tool.*''
       = Some [py_key (PyBoundMethod 102 7 3), py_key (PyFunction 12)]
   \<and> pattern_matches ''tool.execute'' ''tool.execute''
   \<and> pattern_matches ''tool.*'' ''tool.execute''
   \<and> py_eq (PyBoundMethod 101 7 3) (PyBoundMethod 102 7 3)
   \<and> length (filter (\<lambda>x. x = (py_key (PyBoundMethod 101 7 3), ''tool.execute'', (), ())
                         \<or> x = (py_key (PyBoundMethod 102 7 3), ''tool.execute'', (), ()))
                (calls (snd (publish quiet ''tool.execute'' () () example_methods)))) = 1
   \<and> \<not> py_eq (PyFunction 11) (PyFunction 12)
   \<and> length (filter (\<lambda>x. x = (py_key (PyFunction 11), ''tool.execute'', (), ())
                         \<or> x = (py_key (PyFunction 12), ''tool.execute'', (), ()))
                (calls (snd (publish quiet ''tool.execute'' () () example_methods)))) = 2
   \<and> py_eq (PyBoundMethod 103 7 3) (PyBoundMethod 101 7 3)
   \<and> fst (unsubscribe ''tool.execute'' (py_key (PyBoundMethod 103 7 3)) example_methods)
   \<and> \<not> fst (unsubscribe ''tool.execute'' (py_key (PyFunction 12)) example_methods)"
proof -
  have h: "map_of (subscribers example_methods) ''tool.execute''
       = Some [py_key (PyBoundMethod 101 7 3), py_key (PyFunction 11)]"
    "map_of (subscribers example_methods) ''tool.*''
       = Some [py_key (PyBoundMethod 102 7 3), py_key (PyFunction 12)]"
    by (simp_all add: example_methods_def)
  have m: "pattern_matches ''tool.execute'' ''tool.execute''"
    "pattern_matches ''tool.*'' ''tool.execute''"
    by (simp_all add: pattern_matches_def startswith_def endswith_def)
  have c: "calls example_methods = []" by (simp add: example_methods_def)
  from callback_equality_decides
         [where s = example_methods and ?p1.0 = "''tool.execute''" and ?p2.0 = "''tool.*''"
            and a = "PyBoundMethod 101 7 3" and b = "PyBoundMethod 102 7 3"
            and c = "PyBoundMethod 103 7 3" and n = "''tool.execute''"
            and args = "()" and k = "()", OF h(1) _ m(1) h(2) _ m(2)]
  have 1: "length (filter (\<lambda>x. x = (py_key (PyBoundMethod 101 7 3), ''tool.execute'', (), ())
                         \<or> x = (py_key (PyBoundMethod 102 7 3), ''tool.execute'', (), ()))
                (calls (snd (publish quiet ''tool.execute'' () () example_methods)))) = 1"
    and 3: "fst (unsubscribe ''tool.execute'' (py_key (PyBoundMethod 103 7 3)) example_methods)"
    by (auto simp: c)
  from callback_equality_decides
         [where s = example_methods and ?p1.0 = "''tool.execute''" and ?p2.0 = "''tool.*''"
            and a = "PyFunction 11" and b = "PyFunction 12"
            and c = "PyFunction 12" and n = "''tool.execute''"
            and args = "()" and k = "()", OF h(1) _ m(1) h(2) _ m(2)]
  have 2: "length (filter (\<lambda>x. x = (py_key (PyFunction 11), ''tool.execute'', (), ())
                         \<or> x = (py_key (PyFunction 12), ''tool.execute'', (), ()))
                (calls (snd (publish quiet ''tool.execute'' () () example_methods)))) = 2"
    and 4: "\<not> fst (unsubscribe ''tool.execute'' (py_key (PyFunction 12)) example_methods)"
    by (auto simp: c)
  from h m 1 2 3 4 show ?thesis by simp
qed

section \<open>Unsubscribing\<close>

text \<open>
  C8. \<open>unsubscribe(pattern, callback)\<close> returns true exactly when \<open>pattern\<close> is a key of
  the registry and \<open>callback\<close> is in that pattern's list. Then the first occurrence of the
  callback in that list is removed and nothing else: the lists of all other patterns, the
  keys and their order, and the rest of the bus are as before. On a false return the bus
  is unchanged.
\<close>

theorem unsubscribe_first_occurrence_only:
  "(fst (unsubscribe p c s) \<longleftrightarrow> (\<exists>cbs. map_of (subscribers s) p = Some cbs \<and> c \<in> set cbs))
   \<and> (\<not> fst (unsubscribe p c s) \<longrightarrow> snd (unsubscribe p c s) = s)
   \<and> (\<forall>cbs. map_of (subscribers s) p = Some cbs \<and> c \<in> set cbs \<longrightarrow>
         (\<exists>us vs. cbs = us @ c # vs \<and> c \<notin> set us
            \<and> map_of (subscribers (snd (unsubscribe p c s))) p = Some (us @ vs)))
   \<and> (\<forall>q. q \<noteq> p \<longrightarrow>
         map_of (subscribers (snd (unsubscribe p c s))) q = map_of (subscribers s) q)
   \<and> map fst (subscribers (snd (unsubscribe p c s))) = map fst (subscribers s)
   \<and> buffer (snd (unsubscribe p c s)) = buffer s
   \<and> buffer_max_size (snd (unsubscribe p c s)) = buffer_max_size s
   \<and> calls (snd (unsubscribe p c s)) = calls s"
proof (cases "map_of (subscribers s) p")
  case None
  then show ?thesis by (simp add: unsubscribe_def)
next
  case (Some cbs)
  note reg = this
  show ?thesis
  proof (cases "list_remove cbs c")
    case None
    with reg have "unsubscribe p c s = (False, s)" by (simp add: unsubscribe_def)
    moreover from None have "c \<notin> set cbs" by (simp add: list_remove_None)
    ultimately show ?thesis using reg by simp
  next
    case (Some zs)
    from list_remove_split [OF Some] obtain us vs
      where *: "cbs = us @ c # vs" "c \<notin> set us" "zs = us @ vs" by blast
    from reg Some have "unsubscribe p c s =
        (True, s\<lparr>subscribers := AList.update p zs (subscribers s)\<rparr>)"
      by (simp add: unsubscribe_def)
    with reg * show ?thesis
      by (auto simp: update_conv' map_fst_update_present)
  qed
qed

theorem unsubscribe_first_occurrence_only_witness:
  "fst (unsubscribe ''tool.*'' 1 example_registry)
   \<and> map_of (subscribers example_registry) ''tool.*'' = Some ([] @ 1 # [2, 1])
   \<and> map_of (subscribers (snd (unsubscribe ''tool.*'' 1 example_registry))) ''tool.*''
       = Some [2, 1]
   \<and> map_of (subscribers (snd (unsubscribe ''tool.*'' 1 example_registry))) ''tool.execute''
       = Some [1]
   \<and> \<not> fst (unsubscribe ''tool.*'' 3 example_registry)
   \<and> snd (unsubscribe ''tool.*'' 3 example_registry) = example_registry
   \<and> \<not> fst (unsubscribe ''tool.result'' 1 example_registry)
   \<and> snd (unsubscribe ''tool.result'' 1 example_registry) = example_registry"
  using unsubscribe_first_occurrence_only [of "''tool.*''" 1 example_registry]
    unsubscribe_first_occurrence_only [of "''tool.*''" 3 example_registry]
    unsubscribe_first_occurrence_only [of "''tool.result''" 1 example_registry]
  by (simp add: unsubscribe_def example_registry_def)

section \<open>Exceptions of callbacks\<close>

text \<open>
  C7. The bus does not catch what a callback raises. Let the callbacks that a dispatch of
  the event is to invoke be \<open>pre @ c # post\<close> in order, let those of \<open>pre\<close> return normally
  and let \<open>c\<close> raise \<open>e\<close>. Then \<open>publish\<close>, of the core and of the buffered bus, ends
  with the exception \<open>e\<close>, and the invocations made are those of \<open>pre\<close> and of \<open>c\<close>:
  no callback of \<open>post\<close> is invoked.
\<close>

theorem callback_exception_propagates:
  assumes "delivery_order (subscribers s) n = pre @ c # post"
    and "\<forall>c' \<in> set pre. outcome c' n a k = Inr ()"
    and "outcome c n a k = Inl e"
  shows "publish (plain outcome) n a k s =
           (Inl e, s\<lparr>calls := calls s @ map (\<lambda>c. (c, n, a, k)) (pre @ [c])\<rparr>)
         \<and> buffered_publish (plain outcome) n a k s =
           (Inl e, s\<lparr>calls := calls s @ map (\<lambda>c. (c, n, a, k)) (pre @ [c])\<rparr>)"
  using assms dispatch_event_plain_raises
         [where outcome = outcome and n = n and a = a and k = k
            and s = s and pre = pre and c = c and post = post and e = e]
  by (simp add: publish_def buffered_publish_def)

theorem callback_exception_propagates_witness:
  "delivery_order (subscribers example_bus) ''tool.execute'' = [Logger] @ Failing # [Audit]
   \<and> example_outcome Logger ''tool.execute'' () () = Inr ()
   \<and> example_outcome Failing ''tool.execute'' () () = Inl (CallbackError ''boom'')
   \<and> publish (plain example_outcome) ''tool.execute'' () () example_bus =
        (Inl (CallbackError ''boom''),
         example_bus\<lparr>calls := [(Logger, ''tool.execute'', (), ()),
                                (Failing, ''tool.execute'', (), ())]\<rparr>)
   \<and> buffered_publish (plain example_outcome) ''tool.execute'' () () example_bus =
        (Inl (CallbackError ''boom''),
         example_bus\<lparr>calls := [(Logger, ''tool.execute'', (), ()),
                                (Failing, ''tool.execute'', (), ())]\<rparr>)"
  using callback_exception_propagates
          [where s = example_bus and n = "''tool.execute''" and pre = "[Logger]" and c = Failing
             and post = "[Audit]" and outcome = example_outcome and a = "()" and k = "()"
             and e = "CallbackError ''boom''"]
  by (simp add: example_order example_outcome_def example_bus_fields(2-4))

text \<open>
  C10. When the first dispatch of a \<open>publish\<close> on the buffered bus ends with an exception,
  \<open>publish\<close> ends with that exception and in the very state the dispatch ended in:
  nothing is appended to the buffer and no flush runs. For callbacks that do not use the
  bus themselves the buffer (and the registry) is then as before the call.
\<close>

theorem buffered_publish_raise_leaves_buffer:
  "(\<forall>e s1. publish call n a k s = (Inl e, s1) \<longrightarrow>
        buffered_publish call n a k s = (Inl e, s1))
   \<and> (\<forall>e. fst (publish (plain outcome) n a k s) = Inl e \<longrightarrow>
        fst (buffered_publish (plain outcome) n a k s) = Inl e
        \<and> buffer (snd (buffered_publish (plain outcome) n a k s)) = buffer s
        \<and> subscribers (snd (buffered_publish (plain outcome) n a k s)) = subscribers s)"
proof -
  have plain_frame: "buffer (snd (invoke_callbacks (plain outcome) n a k cbs seen t)) = buffer t
      \<and> subscribers (snd (invoke_callbacks (plain outcome) n a k cbs seen t)) = subscribers t"
    for cbs seen and t :: "('a, 'b, 'c) bus"
    by (induction cbs arbitrary: seen t) (auto simp: plain_def split: sum.splits)
  have "buffer (snd (publish (plain outcome) n a k s)) = buffer s
      \<and> subscribers (snd (publish (plain outcome) n a k s)) = subscribers s"
    using plain_frame [of "dict_get (subscribers s) n [] @ prefix_matching n (subscribers s)" "{}" s]
    by (auto simp: publish_def dispatch_event_def split: prod.splits sum.splits)
  then show ?thesis
    by (auto simp: buffered_publish_def split: prod.splits sum.splits)
qed

theorem buffered_publish_raise_leaves_buffer_witness:
  "publish (plain example_outcome) ''tool.execute'' () () example_bus =
        (Inl (CallbackError ''boom''),
         example_bus\<lparr>calls := [(Logger, ''tool.execute'', (), ()),
                                (Failing, ''tool.execute'', (), ())]\<rparr>)
   \<and> buffered_publish (plain example_outcome) ''tool.execute'' () () example_bus =
        (Inl (CallbackError ''boom''),
         example_bus\<lparr>calls := [(Logger, ''tool.execute'', (), ()),
                                (Failing, ''tool.execute'', (), ())]\<rparr>)
   \<and> buffer (snd (buffered_publish (plain example_outcome) ''tool.execute'' () () example_bus))
       = [(''tool.result'', (), ())]"
proof -
  have p: "publish (plain example_outcome) ''tool.execute'' () () example_bus =
        (Inl (CallbackError ''boom''),
         example_bus\<lparr>calls := [(Logger, ''tool.execute'', (), ()),
                                (Failing, ''tool.execute'', (), ())]\<rparr>)"
    using dispatch_event_plain_raises
          [where s = example_bus and n = "''tool.execute''" and pre = "[Logger]" and c = Failing
             and post = "[Audit]" and outcome = example_outcome and a = "()" and k = "()"
             and e = "CallbackError ''boom''"]
    by (simp add: example_order publish_def example_outcome_def example_bus_fields(2-4))
  with buffered_publish_raise_leaves_buffer
         [of "plain example_outcome" "''tool.execute''" "()" "()" example_bus example_outcome]
  show ?thesis by (simp add: example_bus_fields(2-4))
qed

section \<open>Publishing on the buffered bus\<close>

text \<open>
  C2. \<open>publish\<close> on the buffered bus first dispatches the event through the core. When
  that returns \<open>delivered\<close>, the event is appended to the buffer exactly if \<open>delivered\<close>
  is false, then the buffer is flushed in either case, and the state of the bus is the
  one the flush leaves. The result is \<open>delivered\<close>, whatever the flush removed, unless a
  callback raises during the flush. With callbacks that return normally and do not use
  the bus the result is always the core's.
\<close>

theorem buffered_publish_steps:
  "(\<forall>delivered s1. publish call n a k s = (Inr delivered, s1) \<longrightarrow>
      (let s2 = (if \<not> delivered
                 then s1\<lparr>buffer := deque_append (buffer_max_size s1) (buffer s1) (n, a, k)\<rparr>
                 else s1)
       in snd (buffered_publish call n a k s) = snd (flush_buffer call None s2)
          \<and> fst (buffered_publish call n a k s) =
              (case fst (flush_buffer call None s2) of
                 Inl e \<Rightarrow> Inl e | Inr removed \<Rightarrow> Inr delivered)))
   \<and> fst (buffered_publish quiet n a k s) = fst (publish quiet n a k s)"
proof -
  have "fst (buffered_publish quiet n a k s) = fst (publish quiet n a k s)"
  proof -
    obtain d s1 where p: "publish quiet n a k s = (Inr d, s1)"
      by (simp add: publish_def dispatch_event_quiet)
    let ?s2 = "if \<not> d
                 then s1\<lparr>buffer := deque_append (buffer_max_size s1) (buffer s1) (n, a, k)\<rparr>
                 else s1"
    from flush_loop_quiet_returns [of None "length (buffer ?s2)" 0 ?s2]
    obtain r' s' where "flush_buffer quiet None ?s2 = (Inr r', s')"
      by (auto simp: flush_buffer_def)
    with p show ?thesis by (simp add: buffered_publish_def Let_def)
  qed
  then show ?thesis
    by (auto simp: buffered_publish_def Let_def split: prod.splits sum.splits)
qed

theorem buffered_publish_steps_witness:
  "publish quiet ''other'' () () example_bus = (Inr False, example_bus)
   \<and> buffered_publish quiet ''other'' () () example_bus =
        (Inr False,
         example_bus\<lparr>buffer := [(''other'', (), ())],
                      calls := [(Audit, ''tool.result'', (), ()),
                                (Logger, ''tool.result'', (), ())]\<rparr>)
   \<and> publish quiet ''tool.execute'' () () example_bus =
        (Inr True,
         example_bus\<lparr>calls := [(Logger, ''tool.execute'', (), ()),
                                (Failing, ''tool.execute'', (), ()),
                                (Audit, ''tool.execute'', (), ())]\<rparr>)
   \<and> buffered_publish quiet ''tool.execute'' () () example_bus =
        (Inr True,
         example_bus\<lparr>buffer := [],
                      calls := [(Logger, ''tool.execute'', (), ()),
                                (Failing, ''tool.execute'', (), ()),
                                (Audit, ''tool.execute'', (), ()),
                                (Audit, ''tool.result'', (), ()),
                                (Logger, ''tool.result'', (), ())]\<rparr>)"
proof -
  have p1: "publish quiet ''other'' () () example_bus = (Inr False, example_bus)"
    by (simp add: publish_def dispatch_event_quiet example_order)
  have p2: "publish quiet ''tool.execute'' () () example_bus =
        (Inr True,
         example_bus\<lparr>calls := [(Logger, ''tool.execute'', (), ()),
                                (Failing, ''tool.execute'', (), ()),
                                (Audit, ''tool.execute'', (), ())]\<rparr>)"
    by (simp add: publish_def dispatch_event_quiet example_order example_bus_fields(2-4))
  from buffered_publish_steps
         [of quiet "''other''" "()" "()" example_bus, THEN conjunct1, rule_format, OF p1]
  have "buffered_publish quiet ''other'' () () example_bus =
        (Inr False,
         example_bus\<lparr>buffer := [(''other'', (), ())],
                      calls := [(Audit, ''tool.result'', (), ()),
                                (Logger, ''tool.result'', (), ())]\<rparr>)"
    by (simp add: prod_eq_iff flush_buffer_quiet deque_append_def example_bus_fields(2-4) trims_def example_order)
  moreover
  from buffered_publish_steps
         [of quiet "''tool.execute''" "()" "()" example_bus, THEN conjunct1, rule_format, OF p2]
  have "buffered_publish quiet ''tool.execute'' () () example_bus =
        (Inr True,
         example_bus\<lparr>buffer := [],
                      calls := [(Logger, ''tool.execute'', (), ()),
                                (Failing, ''tool.execute'', (), ()),
                                (Audit, ''tool.execute'', (), ()),
                                (Audit, ''tool.result'', (), ()),
                                (Logger, ''tool.result'', (), ())]\<rparr>)"
    by (simp add: prod_eq_iff flush_buffer_quiet deque_append_def example_bus_fields(2-4) trims_def example_order)
  ultimately show ?thesis using p1 p2 by simp
qed

section \<open>Delivery of buffered events\<close>

text \<open>
  C6. With callbacks that return normally and do not use the bus, and a buffer within
  its capacity: an event published on the buffered bus while no subscriber matches it is
  reported undelivered and is in the buffer afterwards (capacity at least one). And when
  an event is in the buffer and a callback is subscribed on the buffered bus under a
  pattern that matches it, the subscribe call returns the result of the core's subscribe,
  leaves the registry the core's subscribe builds, invokes that callback with the event,
  and the event is no longer in the buffer.
\<close>

theorem buffered_event_delivered_on_subscribe:
  "(delivery_order (subscribers s) n = [] \<and> length (buffer s) \<le> buffer_max_size s
      \<and> 0 < buffer_max_size s \<longrightarrow>
      fst (buffered_publish quiet n a k s) = Inr False
      \<and> (n, a, k) \<in> set (buffer (snd (buffered_publish quiet n a k s))))
   \<and> ((n, a, k) \<in> set (buffer s) \<and> pattern_matches p n
      \<and> length (buffer s) \<le> buffer_max_size s \<longrightarrow>
      fst (buffered_subscribe quiet p c s) = Inr (fst (subscribe p c s))
      \<and> subscribers (snd (buffered_subscribe quiet p c s)) = subscribers (snd (subscribe p c s))
      \<and> (n, a, k) \<notin> set (buffer (snd (buffered_subscribe quiet p c s)))
      \<and> (\<exists>new. calls (snd (buffered_subscribe quiet p c s)) = calls s @ new
             \<and> (c, n, a, k) \<in> set new))"
proof (intro conjI impI)
  assume A: "delivery_order (subscribers s) n = [] \<and> length (buffer s) \<le> buffer_max_size s
      \<and> 0 < buffer_max_size s"
  let ?s2 = "s\<lparr>buffer := deque_append (buffer_max_size s) (buffer s) (n, a, k)\<rparr>"
  from A have p: "publish quiet n a k s = (Inr False, s)"
    by (simp add: publish_def dispatch_event_quiet)
  from A have mem: "(n, a, k) \<in> set (buffer ?s2)"
    by (cases "buffer s") (auto simp: deque_append_def Let_def)
  from A have len: "length (buffer ?s2) \<le> buffer_max_size ?s2"
    by (auto simp: deque_append_def Let_def)
  from p have bp: "buffered_publish quiet n a k s =
      (case flush_buffer quiet None ?s2 of (Inl e, s3) \<Rightarrow> (Inl e, s3)
       | (Inr r, s3) \<Rightarrow> (Inr False, s3))"
    by (simp add: buffered_publish_def)
  from A mem show "fst (buffered_publish quiet n a k s) = Inr False"
    unfolding bp flush_buffer_quiet [OF len] by simp
  from A mem show "(n, a, k) \<in> set (buffer (snd (buffered_publish quiet n a k s)))"
    unfolding bp flush_buffer_quiet [OF len] by (simp add: trims_def)
next
  assume B: "(n, a, k) \<in> set (buffer s) \<and> pattern_matches p n
      \<and> length (buffer s) \<le> buffer_max_size s"
  let ?s1 = "snd (subscribe p c s)"
  from subscribe_registers [of p c s] obtain cbs
    where "map_of (subscribers ?s1) p = Some (cbs @ [c])" ..
  from delivery_order_member [OF this, of c n] B
  have c: "c \<in> set (delivery_order (subscribers ?s1) n)" by simp
  from B have len: "length (buffer ?s1) \<le> buffer_max_size ?s1" by (simp add: subscribe_frame)
  have sub: "subscribe p c s = (True, ?s1)"
    by (simp add: subscribe_def Let_def)
  have bs: "buffered_subscribe quiet p c s =
      (case flush_buffer quiet None ?s1 of (Inl e, s2) \<Rightarrow> (Inl e, s2)
       | (Inr r, s2) \<Rightarrow> (Inr True, s2))"
    unfolding buffered_subscribe_def by (subst sub) simp
  show "fst (buffered_subscribe quiet p c s) = Inr (fst (subscribe p c s))"
    unfolding bs flush_buffer_quiet [OF len] by (simp add: subscribe_frame)
  show "subscribers (snd (buffered_subscribe quiet p c s)) = subscribers ?s1"
    unfolding bs flush_buffer_quiet [OF len] by simp
  from c show "(n, a, k) \<notin> set (buffer (snd (buffered_subscribe quiet p c s)))"
    unfolding bs flush_buffer_quiet [OF len] by auto
  from B c have "(c, n, a, k) \<in> set (concat (map (\<lambda>(n, a, k).
        if trims None n then []
        else map (\<lambda>c. (c, n, a, k)) (delivery_order (subscribers ?s1) n)) (buffer s)))"
    by (auto simp: trims_def intro!: bexI [of _ "(n, a, k)"])
  then show "\<exists>new. calls (snd (buffered_subscribe quiet p c s)) = calls s @ new
             \<and> (c, n, a, k) \<in> set new"
    unfolding bs flush_buffer_quiet [OF len] by (simp add: subscribe_frame)
qed

theorem buffered_event_delivered_on_subscribe_witness:
  "delivery_order (subscribers (init_bus 2 :: (example_cb, unit, unit) bus)) ''tool.execute'' = []
   \<and> buffered_publish quiet ''tool.execute'' () () (init_bus 2) = (Inr False, example_pending)
   \<and> (''tool.execute'', (), ()) \<in> set (buffer example_pending)
   \<and> pattern_matches ''tool.*'' ''tool.execute''
   \<and> length (buffer example_pending) \<le> buffer_max_size example_pending
   \<and> buffered_subscribe quiet ''tool.*'' Audit example_pending =
     (Inr True, \<lparr>subscribers = [(''tool.*'', [Audit])], buffer = [], buffer_max_size = 2,
                  calls = [(Audit, ''tool.execute'', (), ())]\<rparr>)
   \<and> (''tool.execute'', (), ())
         \<notin> set (buffer (snd (buffered_subscribe quiet ''tool.*'' Audit example_pending)))"
  using buffered_event_delivered_on_subscribe
          [where s = example_pending and n = "''tool.execute''" and a = "()" and k = "()"
             and p = "''tool.*''" and c = Audit]
        buffered_event_delivered_on_subscribe
          [where s = "init_bus 2 :: (example_cb, unit, unit) bus" and n = "''tool.execute''"
             and a = "()" and k = "()"]
        example_pending_published example_pending_subscribed
  by (simp add: pattern_matches_def startswith_def endswith_def example_pending_def
        delivery_order_def dict_get_def init_bus_def)

section \<open>Capacity of the buffer\<close>

text \<open>
  C4. Start from a new buffered bus of capacity \<open>C\<close> and run any sequence of calls of
  \<open>publish\<close>, \<open>subscribe\<close>, \<open>unsubscribe\<close> and \<open>trim_by_prefix\<close>, with callbacks that may
  themselves make such calls, and that may raise: the buffer then holds at most \<open>C\<close>
  entries. Appending to a buffer that holds \<open>C\<close> entries drops the oldest one. And when
  \<open>C + 1\<close> events that match no subscription are published on a bus with an empty buffer,
  the buffer holds all of them but the first, in the order in which they were published.
\<close>

theorem buffer_never_exceeds_capacity:
  fixes behaviour :: "'cb \<Rightarrow> string \<Rightarrow> 'a \<Rightarrow> 'k \<Rightarrow> ('cb, 'a, 'k) action list"
    and call :: "('cb, 'a, 'k) call"
  shows "length (buffer (run_program (invoke limit behaviour) prog (init_bus C))) \<le> C
   \<and> buffer_max_size (run_program (invoke limit behaviour) prog (init_bus C)) = C
   \<and> (\<forall>(q :: (string \<times> 'a \<times> 'k) list) x.
          length q = C \<longrightarrow> deque_append C q x = tl (q @ [x]))
   \<and> (\<forall>evs subs. length evs = C + 1
          \<and> (\<forall>e \<in> set evs. delivery_order subs (fst e) = []) \<longrightarrow>
          buffer (run_program call (map (\<lambda>(n, a, k). Publish n a k) evs)
                    ((init_bus C)\<lparr>subscribers := subs\<rparr>)) = tl evs)"
proof (intro conjI allI impI)
  from run_program_capacity [of C "invoke limit behaviour" "init_bus C" prog,
         OF invoke_capacity init_bus_within_capacity]
  have "within_capacity C (run_program (invoke limit behaviour) prog (init_bus C))" .
  then show "length (buffer (run_program (invoke limit behaviour) prog (init_bus C))) \<le> C"
    and "buffer_max_size (run_program (invoke limit behaviour) prog (init_bus C)) = C"
    by (simp_all add: within_capacity_def)
next
  fix q :: "(string \<times> 'a \<times> 'k) list" and x
  assume "length q = C"
  then show "deque_append C q x = tl (q @ [x])"
    by (simp add: deque_append_def)
next
  fix evs :: "(string \<times> 'a \<times> 'k) list" and subs :: "(string \<times> 'cb list) list"
  assume A: "length evs = C + 1 \<and> (\<forall>e \<in> set evs. delivery_order subs (fst e) = [])"
  let ?s = "(init_bus C :: ('cb, 'a, 'k) bus)\<lparr>subscribers := subs\<rparr>"
  from A have "run_program call (map (\<lambda>(n, a, k). Publish n a k) evs) ?s =
     ?s\<lparr>buffer := drop (length (buffer ?s @ evs) - buffer_max_size ?s) (buffer ?s @ evs)\<rparr>"
    by (intro run_publishes_undeliverable) (simp_all add: init_bus_def)
  with A show "buffer (run_program call (map (\<lambda>(n, a, k). Publish n a k) evs) ?s) = tl evs"
    by (simp add: init_bus_def drop_Suc)
qed

theorem buffer_never_exceeds_capacity_witness:
  "length [(''a'', (), ()), (''b'', (), ()), (''c'', (), ())] = 2 + 1
   \<and> delivery_order ([] :: (string \<times> example_cb list) list) ''a'' = []
   \<and> delivery_order ([] :: (string \<times> example_cb list) list) ''b'' = []
   \<and> delivery_order ([] :: (string \<times> example_cb list) list) ''c'' = []
   \<and> buffer (run_program (quiet :: (example_cb, unit, unit) call)
                [Publish ''a'' () (), Publish ''b'' () (), Publish ''c'' () ()] (init_bus 2))
       = [(''b'', (), ()), (''c'', (), ())]
   \<and> deque_append 2 [(''a'', (), ()), (''b'', (), ())] (''c'', (), ())
       = [(''b'', (), ()), (''c'', (), ())]"
proof -
  have e: "(init_bus 2 :: (example_cb, unit, unit) bus)\<lparr>subscribers := []\<rparr> = init_bus 2"
    by (simp add: init_bus_def)
  have d: "delivery_order ([] :: (string \<times> example_cb list) list) n = []" for n
    by (simp add: delivery_order_def dict_get_def)
  note inst = buffer_never_exceeds_capacity
         [where C = 2 and call = "quiet :: (example_cb, unit, unit) call"
            and behaviour = "\<lambda>cb n a k. []" and limit = 0 and prog = "[]"]
  from inst [THEN conjunct2, THEN conjunct2, THEN conjunct2, rule_format,
         of "[(''a'', (), ()), (''b'', (), ()), (''c'', (), ())]" "[]"]
  have "buffer (run_program (quiet :: (example_cb, unit, unit) call)
                [Publish ''a'' () (), Publish ''b'' () (), Publish ''c'' () ()] (init_bus 2))
       = [(''b'', (), ()), (''c'', (), ())]"
    by (simp add: e d)
  moreover
  from inst [THEN conjunct2, THEN conjunct2, THEN conjunct1, rule_format,
         of "[(''a'', (), ()), (''b'', (), ())]" "(''c'', (), ())"]
  have "deque_append 2 [(''a'', (), ()), (''b'', (), ())] (''c'', (), ())
       = [(''b'', (), ()), (''c'', (), ())]"
    by simp
  ultimately show ?thesis by (simp add: d)
qed

section \<open>The flush pass\<close>

text \<open>
  C3. A flush pass makes at most as many dequeue attempts as the buffer held when the pass
  began; the claim adds that an entry enqueued while the pass runs is not processed in
  that pass. The second part fails on the code when an entry that was in the buffer at the
  start leaves it by another way than the pass's own dequeue. Here the capacity is 2 and
  \<open>e1\<close>, \<open>e2\<close> are buffered. \<open>subscribe('e1', Logger)\<close> starts a pass of two attempts. The
  first takes \<open>e1\<close> and delivers it to \<open>Logger\<close>, which publishes \<open>x1\<close> and \<open>x2\<close>; nobody
  receives them, so both are buffered, and appending \<open>x2\<close> evicts \<open>e2\<close>. The second
  attempt of the same pass therefore takes \<open>x1\<close>, which was enqueued during the pass,
  dispatches it and appends it again behind \<open>x2\<close>: the buffer ends as \<open>x2\<close>, \<open>x1\<close>, against
  the order in which the two were published. The theorem evaluates the code at each
  step, for any recursion limit that lets \<open>Logger\<close> run.
\<close>

theorem flush_processes_entry_enqueued_in_same_pass:
  "run_program (invoke (Suc limit) republishing)
       [Publish ''e1'' () (), Publish ''e2'' () ()] (init_bus 2)
     = example_full\<lparr>subscribers := []\<rparr>
   \<and> subscribe ''e1'' Logger (example_full\<lparr>subscribers := []\<rparr>) = (True, example_full)
   \<and> dispatch_event (invoke (Suc limit) republishing) ''e1'' () ()
         (example_full\<lparr>buffer := [(''e2'', (), ())]\<rparr>)
     = (Inr True, example_full\<lparr>buffer := [(''x1'', (), ()), (''x2'', (), ())],
                               calls := [(Logger, ''e1'', (), ())]\<rparr>)
   \<and> flush_buffer (invoke (Suc limit) republishing) None example_full
     = (Inr 1, example_full\<lparr>buffer := [(''x2'', (), ()), (''x1'', (), ())],
                            calls := [(Logger, ''e1'', (), ())]\<rparr>)
   \<and> buffered_subscribe (invoke (Suc limit) republishing) ''e1'' Logger
         (example_full\<lparr>subscribers := []\<rparr>)
     = (Inr True, example_full\<lparr>buffer := [(''x2'', (), ()), (''x1'', (), ())],
                               calls := [(Logger, ''e1'', (), ())]\<rparr>)"
proof -
  let ?call = "invoke (Suc limit) republishing"
  note none = dispatch_event_no_match invoke_Suc_apply
  have o: "delivery_order [] n = ([] :: example_cb list)"
    "delivery_order [(''e1'', [Logger])] ''e2'' = []"
    "delivery_order [(''e1'', [Logger])] ''x1'' = []"
    "delivery_order [(''e1'', [Logger])] ''x2'' = []" for n
    by (simp_all add: delivery_order_def dict_get_def endswith_def)
  have p1: "run_program ?call [Publish ''e1'' () (), Publish ''e2'' () ()] (init_bus 2)
     = example_full\<lparr>subscribers := []\<rparr>"
    by (simp add: run_program_def buffered_publish_def publish_def flush_buffer_def none o
          init_bus_def example_full_def deque_append_def del: invoke.simps)
  have p2: "subscribe ''e1'' Logger (example_full\<lparr>subscribers := []\<rparr>) = (True, example_full)"
    by (simp add: subscribe_def example_full_def dict_get_def)
  have p3: "dispatch_event ?call ''e1'' () () (example_full\<lparr>buffer := [(''e2'', (), ())]\<rparr>)
     = (Inr True, example_full\<lparr>buffer := [(''x1'', (), ()), (''x2'', (), ())],
                               calls := [(Logger, ''e1'', (), ())]\<rparr>)"
    by (simp add: dispatch_event_def [of ?call "''e1''"] dict_get_def endswith_def
          republishing_def buffered_publish_def publish_def flush_buffer_def none o
          example_full_def deque_append_def del: invoke.simps)
  have p4: "flush_buffer ?call None example_full
     = (Inr 1, example_full\<lparr>buffer := [(''x2'', (), ()), (''x1'', (), ())],
                            calls := [(Logger, ''e1'', (), ())]\<rparr>)"
  proof -
    have "flush_buffer ?call None example_full =
        flush_loop ?call None (Suc (Suc 0)) 0 example_full"
      by (simp add: flush_buffer_def example_full_def)
    also have "\<dots> = flush_loop ?call None (Suc 0) 1
        (example_full\<lparr>buffer := [(''x1'', (), ()), (''x2'', (), ())],
                               calls := [(Logger, ''e1'', (), ())]\<rparr>)"
      using p3 by (simp add: example_full_def del: invoke.simps)
    also have "\<dots> = (Inr 1, example_full\<lparr>buffer := [(''x2'', (), ()), (''x1'', (), ())],
                            calls := [(Logger, ''e1'', (), ())]\<rparr>)"
      by (simp add: none o example_full_def deque_append_def del: invoke.simps)
    finally show ?thesis .
  qed
  have p5: "buffered_subscribe ?call ''e1'' Logger (example_full\<lparr>subscribers := []\<rparr>)
     = (Inr True, example_full\<lparr>buffer := [(''x2'', (), ()), (''x1'', (), ())],
                               calls := [(Logger, ''e1'', (), ())]\<rparr>)"
    by (simp add: buffered_subscribe_def p2 p4 del: invoke.simps)
  from p1 p2 p3 p4 p5 show ?thesis by blast
qed

section \<open>Trimming the buffer\<close>

text \<open>
  C5. \<open>trim_by_prefix(p)\<close> is to remove every buffered event whose name starts with \<open>p\<close>.
  The code does not do so for the empty prefix: every name starts with it, but the test
  \<open>if trim_prefix and ...\<close> of the flush loop is false for an empty string, so nothing is
  trimmed. An event published with no subscriber is still in the buffer after
  \<open>trim_by_prefix('')\<close>, and the count returned is 0.

  Nor does it for a prefix that is not empty when a callback uses the bus during the
  pass. On \<open>example_chain\<close> the pass of \<open>trim_by_prefix('log')\<close> has three attempts. The first
  delivers \<open>go\<close> to \<open>Logger\<close>, whose subscribe flushes the buffer: that flush delivers \<open>t\<close> to
  \<open>Audit\<close>, which publishes \<open>u1\<close> and \<open>u2\<close>, and then appends \<open>log.a\<close> again behind them.
  The two attempts left take \<open>u1\<close> and \<open>u2\<close>. The call returns 1 and \<open>log.a\<close> is still in
  the buffer.
\<close>

theorem trim_by_prefix_leaves_matching_entries:
  "buffered_publish quiet ''tool.execute'' () () (init_bus 2) = (Inr False, example_pending)
   \<and> buffer example_pending = [(''tool.execute'', (), ())]
   \<and> startswith ''tool.execute'' []
   \<and> trim_by_prefix quiet [] example_pending = (Inr 0, example_pending)
   \<and> run_program (invoke 5 chain)
         [Publish ''boom'' () (), Publish ''boom'' () (), Publish ''go'' () (),
          Publish ''t'' () (), Publish ''log.a'' () (),
          Subscribe ''boom'' Failing, Subscribe ''go'' Logger] (init_bus 10) = example_chain
   \<and> startswith ''log.a'' ''log''
   \<and> trim_by_prefix (invoke 5 chain) ''log'' example_chain =
        (Inr 1, example_chain\<lparr>subscribers := [(''boom'', [Failing]), (''go'', [Logger]),
                                                (''t'', [Audit])],
                               buffer := [(''log.a'', (), ()), (''u1'', (), ()), (''u2'', (), ())],
                               calls := [(Failing, ''boom'', (), ()), (Failing, ''boom'', (), ()),
                                         (Logger, ''go'', (), ()), (Audit, ''t'', (), ())]\<rparr>)"
proof -
  have "delivery_order (subscribers example_pending) ''tool.execute'' = []"
    by (simp add: example_pending_def delivery_order_def dict_get_def)
  then have "trim_by_prefix quiet [] example_pending = (Inr 0, example_pending)"
    by (simp add: trim_by_prefix_def flush_buffer_quiet trims_def example_pending_def)
  moreover have "run_program (invoke 5 chain)
         [Publish ''boom'' () (), Publish ''boom'' () (), Publish ''go'' () (),
          Publish ''t'' () (), Publish ''log.a'' () (),
          Subscribe ''boom'' Failing, Subscribe ''go'' Logger] (init_bus 10) = example_chain"
    by code_simp
  moreover have "trim_by_prefix (invoke 5 chain) ''log'' example_chain =
        (Inr 1, example_chain\<lparr>subscribers := [(''boom'', [Failing]), (''go'', [Logger]),
                                                (''t'', [Audit])],
                               buffer := [(''log.a'', (), ()), (''u1'', (), ()), (''u2'', (), ())],
                               calls := [(Failing, ''boom'', (), ()), (Failing, ''boom'', (), ()),
                                         (Logger, ''go'', (), ()), (Audit, ''t'', (), ())]\<rparr>)"
    by code_simp
  ultimately show ?thesis
    using example_pending_published
    by (simp add: startswith_def example_pending_def)
qed

end
